theory Spec2Isabelle
  imports Main
begin

section \<open>Time values\<close>

text \<open>
  A \<^verbatim>\<open>time.Time\<close> is modelled as the number of nanoseconds since Go's zero time
  (January 1, year 1, 00:00:00 UTC), read in UTC. In that location \<^verbatim>\<open>AddDate(0, 0, n)\<close>
  adds \<open>n\<close> times 24 hours, and January 1 of year 1 is a Monday. A \<^verbatim>\<open>time.Duration\<close>
  is a number of nanoseconds held in an int64; \<^verbatim>\<open>Sub\<close> saturates at its bounds.
\<close>

type_synonym Time = int

type_synonym Duration = int

definition nsPerDay :: int where
  "nsPerDay = 86400000000000"

definition nsPerHour :: int where
  "nsPerHour = 3600000000000"

definition IsZero :: "Time \<Rightarrow> bool" where
  "IsZero t = (t = 0)"

definition After :: "Time \<Rightarrow> Time \<Rightarrow> bool" where
  "After t u = (u < t)"


text \<open>\<^verbatim>\<open>t.AddDate(0, 0, n)\<close>.\<close>

definition AddDays :: "Time \<Rightarrow> int \<Rightarrow> Time" where
  "AddDays t n = t + n * nsPerDay"

text \<open>\<^verbatim>\<open>t.Weekday()\<close>, with Go's numbering: Sunday is 0, Saturday is 6.\<close>

definition Sunday :: int where
  "Sunday = 0"

definition Saturday :: int where
  "Saturday = 6"

definition Weekday :: "Time \<Rightarrow> int" where
  "Weekday t = (t div nsPerDay + 1) mod 7"

definition Sub :: "Time \<Rightarrow> Time \<Rightarrow> Duration" where
  "Sub t u = max (- (2 ^ 63)) (min (2 ^ 63 - 1) (t - u))"

text \<open>
  \<^verbatim>\<open>d.Hours() < h\<close> for an integer \<open>h\<close>. Go computes \<^verbatim>\<open>Hours()\<close> as the float64 sum of the
  whole hours and the remaining fraction of an hour, which is below \<open>h\<close> exactly when the
  duration is below \<open>h\<close> hours.
\<close>

definition Hours_less :: "Duration \<Rightarrow> int \<Rightarrow> bool" where
  "Hours_less d h = (d < h * nsPerHour)"

text \<open>\<^verbatim>\<open>t.UnixNano()\<close>: nanoseconds since January 1, 1970 UTC.\<close>

definition UnixNano :: "Time \<Rightarrow> int" where
  "UnixNano t = t - 62135596800 * 1000000000"

section \<open>Formatting integers\<close>

text \<open>
  Go's \<^verbatim>\<open>int\<close> is 64 bits wide on the platforms the server targets; \<open>wrap_int\<close> is the
  two's complement wrap-around of an arithmetic result.
\<close>

definition wrap_int :: "int \<Rightarrow> int" where
  "wrap_int x = (x + 2 ^ 63) mod 2 ^ 64 - 2 ^ 63"

definition digit :: "nat \<Rightarrow> char" where
  "digit d = ''0123456789'' ! d"

fun digits :: "nat \<Rightarrow> string" where
  "digits n = (if n < 10 then [digit n] else digits (n div 10) @ [digit (n mod 10)])"

declare digits.simps [simp del]

text \<open>The verb \<^verbatim>\<open>%d\<close>.\<close>

definition fmt_d :: "int \<Rightarrow> string" where
  "fmt_d n = (if n < 0 then CHR ''-'' # digits (nat (- n)) else digits (nat n))"

definition zero_pad :: "nat \<Rightarrow> string \<Rightarrow> string" where
  "zero_pad w s = replicate (w - length s) (CHR ''0'') @ s"

text \<open>The verb \<^verbatim>\<open>%03d\<close>: zero padding to a width of three, the sign counted in the width.\<close>

definition fmt_03d :: "int \<Rightarrow> string" where
  "fmt_03d n = (if n < 0 then CHR ''-'' # zero_pad 2 (digits (nat (- n)))
                else zero_pad 3 (digits (nat n)))"

section \<open>Domain: cases and deadlines\<close>

type_synonym CaseType = string

definition CaseTypeAdvisoryOpinion :: CaseType where
  "CaseTypeAdvisoryOpinion = ''AO''"

definition CaseTypeEthicsComplaint :: CaseType where
  "CaseTypeEthicsComplaint = ''EC''"

definition CaseTypeEthicsAcknowledgment :: CaseType where
  "CaseTypeEthicsAcknowledgment = ''EA''"

definition CaseTypePublicRecordsRequest :: CaseType where
  "CaseTypePublicRecordsRequest = ''PRR''"

type_synonym CaseStatus = string

definition StatusSubmitted :: CaseStatus where
  "StatusSubmitted = ''submitted''"

definition StatusUnderReview :: CaseStatus where
  "StatusUnderReview = ''under_review''"

definition StatusInvestigation :: CaseStatus where
  "StatusInvestigation = ''investigation''"

definition StatusPendingHearing :: CaseStatus where
  "StatusPendingHearing = ''pending_hearing''"

definition StatusDraftPrepared :: CaseStatus where
  "StatusDraftPrepared = ''draft_prepared''"

definition StatusPublished :: CaseStatus where
  "StatusPublished = ''published''"

definition StatusClosed :: CaseStatus where
  "StatusClosed = ''closed''"

definition StatusWithdrawn :: CaseStatus where
  "StatusWithdrawn = ''withdrawn''"

record Case =
  ID :: string
  CaseNumber :: string
  Type :: CaseType
  Status :: CaseStatus
  SubmitterName :: string
  SubmitterTitle :: string
  SubmitterAgency :: string
  SubmitterEmail :: string
  SubmitterPhone :: string
  SubjectName :: string
  SubjectTitle :: string
  SubjectAgency :: string
  Summary :: string
  Description :: string
  StatuteCitations :: string
  SubmittedAt :: Time
  DueDate :: Time
  ClosedAt :: "Time option"
  PublishedAt :: "Time option"
  AssignedTo :: string
  AssignedToName :: string
  IsPublic :: bool
  IsConfidential :: bool
  Priority :: string
  Tags :: "string list"
  CreatedAt :: Time
  UpdatedAt :: Time

record Deadline =
  Deadline_ID :: string
  Deadline_CaseID :: string
  Deadline_CaseNumber :: string
  Deadline_CaseType :: CaseType
  Deadline_Summary :: string
  Deadline_Type :: string
  Deadline_DueDate :: Time
  Deadline_Status :: string
  Deadline_ReminderSent :: bool
  Deadline_CompletedAt :: "Time option"

text \<open>
  \<^verbatim>\<open>(c *Case) IsOverdue()\<close>. The argument \<open>now\<close> is the value \<^verbatim>\<open>time.Now()\<close> returns
  in the call.
\<close>

definition Case_IsOverdue :: "Case \<Rightarrow> Time \<Rightarrow> bool" where
  "Case_IsOverdue c now =
     (if IsZero (DueDate c) then False
      else After now (DueDate c) \<and> Status c \<noteq> StatusClosed \<and> Status c \<noteq> StatusPublished)"

section \<open>The in-memory case repository\<close>

text \<open>
  The repository maps case IDs to case records and case types to counters. The Go map
  holds pointers; each record is stored under its own ID, and the model stores the record
  itself. Reading a counter that was never written gives 0, as a Go map does. Every
  method holds the repository's lock from its first statement to its return, so a method
  is one step on the repository value; the lock itself appears in the thread model of
  \<open>NextCaseNumber\<close> further down.
\<close>

datatype error = CaseNotFound string

record CaseRepository =
  cases :: "string \<rightharpoonup> Case"
  counters :: "CaseType \<rightharpoonup> int"

definition counter :: "CaseRepository \<Rightarrow> CaseType \<Rightarrow> int" where
  "counter r caseType = (case counters r caseType of None \<Rightarrow> 0 | Some n \<Rightarrow> n)"

text \<open>The counters \<^verbatim>\<open>seedDemoData\<close> sets.\<close>

definition seeded_counters :: "CaseType \<rightharpoonup> int" where
  "seeded_counters =
     [CaseTypeAdvisoryOpinion \<mapsto> 42, CaseTypeEthicsComplaint \<mapsto> 18,
      CaseTypeEthicsAcknowledgment \<mapsto> 156, CaseTypePublicRecordsRequest \<mapsto> 89]"

definition CaseRepository_Create :: "CaseRepository \<Rightarrow> Case \<Rightarrow> error option \<times> CaseRepository" where
  "CaseRepository_Create r c = (None, r\<lparr>cases := (cases r)(ID c \<mapsto> c)\<rparr>)"

definition CaseRepository_Update :: "CaseRepository \<Rightarrow> Case \<Rightarrow> error option \<times> CaseRepository" where
  "CaseRepository_Update r c =
     (if cases r (ID c) = None then (Some (CaseNotFound (ID c)), r)
      else (None, r\<lparr>cases := (cases r)(ID c \<mapsto> c)\<rparr>))"

definition CaseRepository_GetByID :: "CaseRepository \<Rightarrow> string \<Rightarrow> Case option" where
  "CaseRepository_GetByID r caseID = cases r caseID"

text \<open>
  A \<^verbatim>\<open>range\<close> over the Go map visits every key once, in an order the runtime chooses.
  The order is an argument \<open>order\<close> of the methods that iterate: a list of keys.
\<close>

definition range_cases :: "CaseRepository \<Rightarrow> string list \<Rightarrow> Case list" where
  "range_cases r order = List.map_filter (cases r) order"

definition iteration_order :: "CaseRepository \<Rightarrow> string list \<Rightarrow> bool" where
  "iteration_order r order = (distinct order \<and> set order = dom (cases r))"

text \<open>\<^verbatim>\<open>strings.Contains(s, substr)\<close>.\<close>

fun Contains :: "string \<Rightarrow> string \<Rightarrow> bool" where
  "Contains [] substr = (substr = [])"
| "Contains (x # xs) substr = (take (length substr) (x # xs) = substr \<or> Contains xs substr)"

text \<open>
  The loop of \<^verbatim>\<open>List\<close>, with its three \<^verbatim>\<open>continue\<close> statements. \<^verbatim>\<open>strings.ToLower\<close> is
  the standard library's; it is the argument \<open>ToLower\<close>.
\<close>

fun List_loop ::
  "(string \<Rightarrow> string) \<Rightarrow> string \<Rightarrow> string \<Rightarrow> string \<Rightarrow> Case list \<Rightarrow> Case list \<Rightarrow> Case list" where
  "List_loop ToLower typeFilter statusFilter query [] result = result"
| "List_loop ToLower typeFilter statusFilter query (c # cs) result =
     (if typeFilter \<noteq> [] \<and> Type c \<noteq> typeFilter
        then List_loop ToLower typeFilter statusFilter query cs result
      else if statusFilter \<noteq> [] \<and> Status c \<noteq> statusFilter
        then List_loop ToLower typeFilter statusFilter query cs result
      else if query \<noteq> [] \<and>
              \<not> Contains (ToLower (CaseNumber c @ Summary c @ SubmitterName c)) (ToLower query)
        then List_loop ToLower typeFilter statusFilter query cs result
      else List_loop ToLower typeFilter statusFilter query cs (result @ [c]))"

definition CaseRepository_List ::
  "(string \<Rightarrow> string) \<Rightarrow> CaseRepository \<Rightarrow> string list \<Rightarrow> string \<Rightarrow> string \<Rightarrow> string \<Rightarrow> Case list" where
  "CaseRepository_List ToLower r order typeFilter statusFilter query =
     List_loop ToLower typeFilter statusFilter query (range_cases r order) []"

text \<open>
  The live status of a deadline. \<open>nows\<close> holds the two clock readings the statement
  takes: the one of \<^verbatim>\<open>time.Now()\<close> and the one inside \<^verbatim>\<open>time.Until\<close>.
\<close>

definition live_status :: "Time \<times> Time \<Rightarrow> Time \<Rightarrow> string" where
  "live_status nows due =
     (if After (fst nows) due then ''overdue''
      else if Hours_less (Sub due (snd nows)) (7 * 24) then ''due_soon''
      else ''upcoming'')"

definition new_deadline :: "Case \<Rightarrow> string \<Rightarrow> Deadline" where
  "new_deadline c status =
     \<lparr>Deadline_ID = ''dl_'' @ ID c, Deadline_CaseID = ID c, Deadline_CaseNumber = CaseNumber c,
      Deadline_CaseType = Type c, Deadline_Summary = Summary c, Deadline_Type = ''response_due'',
      Deadline_DueDate = DueDate c, Deadline_Status = status, Deadline_ReminderSent = False,
      Deadline_CompletedAt = None\<rparr>"

text \<open>
  The loop of \<^verbatim>\<open>GetDeadlines\<close>: \<open>clock i\<close> holds the clock readings taken while the
  \<open>i\<close>-th case of the iteration is examined. The length test stands after the
  \<^verbatim>\<open>if\<close>, so it also runs for a case that added nothing.
\<close>

fun GetDeadlines_loop ::
  "(nat \<Rightarrow> Time \<times> Time) \<Rightarrow> int \<Rightarrow> nat \<Rightarrow> Case list \<Rightarrow> Deadline list \<Rightarrow> Deadline list" where
  "GetDeadlines_loop clock limit i [] deadlines = deadlines"
| "GetDeadlines_loop clock limit i (c # cs) deadlines =
     (let deadlines' =
        (if \<not> IsZero (DueDate c) \<and> Status c \<noteq> StatusClosed
         then deadlines @ [new_deadline c (live_status (clock i) (DueDate c))]
         else deadlines)
      in if int (length deadlines') \<ge> limit then deadlines'
         else GetDeadlines_loop clock limit (Suc i) cs deadlines')"

definition CaseRepository_GetDeadlines ::
  "CaseRepository \<Rightarrow> string list \<Rightarrow> (nat \<Rightarrow> Time \<times> Time) \<Rightarrow> int \<Rightarrow> Deadline list" where
  "CaseRepository_GetDeadlines r order clock limit =
     GetDeadlines_loop clock limit 0 (range_cases r order) []"

text \<open>\<^verbatim>\<open>fmt.Sprintf("%s-%d-%03d", caseType, year, n)\<close>.\<close>

definition Sprintf_case_number :: "CaseType \<Rightarrow> int \<Rightarrow> int \<Rightarrow> string" where
  "Sprintf_case_number caseType year n = caseType @ ''-'' @ fmt_d year @ ''-'' @ fmt_03d n"

text \<open>
  \<^verbatim>\<open>NextCaseNumber\<close>: \<open>year\<close> is the value of \<^verbatim>\<open>time.Now().Year()\<close> in the call.
\<close>

definition CaseRepository_NextCaseNumber ::
  "CaseRepository \<Rightarrow> CaseType \<Rightarrow> int \<Rightarrow> string \<times> CaseRepository" where
  "CaseRepository_NextCaseNumber r caseType year =
     (let r' = r\<lparr>counters := (counters r)(caseType \<mapsto> wrap_int (counter r caseType + 1))\<rparr>
      in (Sprintf_case_number caseType year (counter r' caseType), r'))"

section \<open>The case service\<close>

text \<open>
  The loop of \<^verbatim>\<open>calculateBusinessDays\<close>. It ends because every calendar week has
  weekdays: \<open>steps_to_weekday\<close> bounds the iterations until \<open>added\<close> grows next.
\<close>

definition steps_to_weekday :: "int \<Rightarrow> nat" where
  "steps_to_weekday wd = (if wd = 5 then 3 else if wd = 6 then 2 else 1)"

lemma Weekday_AddDays: "Weekday (AddDays t 1) = (Weekday t + 1) mod 7"
proof -
  have "(t + nsPerDay) div nsPerDay = t div nsPerDay + 1"
    by (simp add: nsPerDay_def)
  then show ?thesis
    by (simp add: Weekday_def AddDays_def mod_simps)
qed

lemma Weekday_range: "0 \<le> Weekday t \<and> Weekday t < 7"
  by (simp add: Weekday_def)

lemma weekday_cases:
  "(0 \<le> w \<and> w < (7::int)) = (w = 0 \<or> w = 1 \<or> w = 2 \<or> w = 3 \<or> w = 4 \<or> w = 5 \<or> w = 6)"
  by arith

function calculateBusinessDays_loop :: "int \<Rightarrow> Time \<Rightarrow> int \<Rightarrow> Time" where
  "calculateBusinessDays_loop days result added =
     (if added < days then
        (let result' = AddDays result 1 in
         if Weekday result' \<noteq> Saturday \<and> Weekday result' \<noteq> Sunday
         then calculateBusinessDays_loop days result' (added + 1)
         else calculateBusinessDays_loop days result' added)
      else result)"
  by pat_completeness auto
termination
proof (relation "measure (\<lambda>(days, result, added).
         3 * nat (days - added) + steps_to_weekday (Weekday result))")
  show "wf (measure (\<lambda>(days, result, added).
         3 * nat (days - added) + steps_to_weekday (Weekday result)))"
    by simp
next
  fix days result added :: int and x
  assume a: "added < days" and x: "x = AddDays result 1"
    and "Weekday x \<noteq> Saturday \<and> Weekday x \<noteq> Sunday"
  have "steps_to_weekday (Weekday x) \<le> 3" and "1 \<le> steps_to_weekday (Weekday result)"
    by (simp_all add: steps_to_weekday_def)
  moreover have "nat (days - (added + 1)) + 1 = nat (days - added)"
    using a by simp
  ultimately show "((days, x, added + 1), (days, result, added))
      \<in> measure (\<lambda>(days, result, added).
         3 * nat (days - added) + steps_to_weekday (Weekday result))"
    by simp
next
  fix days result added :: int and x
  assume "added < days" and x: "x = AddDays result 1"
    and w: "\<not> (Weekday x \<noteq> Saturday \<and> Weekday x \<noteq> Sunday)"
  have "Weekday x = (Weekday result + 1) mod 7"
    using x by (simp add: Weekday_AddDays)
  moreover have "0 \<le> Weekday result \<and> Weekday result < 7"
    by (rule Weekday_range)
  ultimately have "Weekday result = 5 \<and> Weekday x = 6 \<or> Weekday result = 6 \<and> Weekday x = 0"
    using w unfolding Saturday_def Sunday_def by (auto simp: weekday_cases)
  then have "steps_to_weekday (Weekday x) < steps_to_weekday (Weekday result)"
    by (auto simp: steps_to_weekday_def)
  then show "((days, x, added), (days, result, added))
      \<in> measure (\<lambda>(days, result, added).
         3 * nat (days - added) + steps_to_weekday (Weekday result))"
    by simp
qed

declare calculateBusinessDays_loop.simps [simp del]

definition calculateBusinessDays :: "Time \<Rightarrow> int \<Rightarrow> Time" where
  "calculateBusinessDays start days = calculateBusinessDays_loop days start 0"

text \<open>
  \<^verbatim>\<open>CaseService.Create\<close>. The call reads the clock four times: \<open>year\<close> inside
  \<^verbatim>\<open>NextCaseNumber\<close>, \<open>now\<^sub>1\<close> for the ID, \<open>now\<^sub>2\<close> for \<^verbatim>\<open>CreatedAt\<close> and \<open>now\<^sub>3\<close>
  for \<^verbatim>\<open>UpdatedAt\<close>. The result holds the returned pair (an error or the case number),
  the caller's record as the call leaves it, and the repository. The log line is not
  modelled.
\<close>

definition CaseService_Create ::
  "CaseRepository \<Rightarrow> Case \<Rightarrow> int \<Rightarrow> Time \<Rightarrow> Time \<Rightarrow> Time
     \<Rightarrow> (error + string) \<times> Case \<times> CaseRepository" where
  "CaseService_Create r c year now\<^sub>1 now\<^sub>2 now\<^sub>3 =
     (let (number, r\<^sub>1) = CaseRepository_NextCaseNumber r (Type c) year;
          c\<^sub>1 = c\<lparr>CaseNumber := number\<rparr>;
          c\<^sub>2 = c\<^sub>1\<lparr>ID := ''case_'' @ fmt_d (UnixNano now\<^sub>1)\<rparr>;
          c\<^sub>3 = c\<^sub>2\<lparr>CreatedAt := now\<^sub>2\<rparr>;
          c\<^sub>4 = c\<^sub>3\<lparr>UpdatedAt := now\<^sub>3\<rparr>;
          c\<^sub>5 = (if Type c\<^sub>4 = CaseTypeAdvisoryOpinion
                  then c\<^sub>4\<lparr>DueDate := calculateBusinessDays (SubmittedAt c\<^sub>4) 45\<rparr>
                else if Type c\<^sub>4 = CaseTypePublicRecordsRequest
                  then c\<^sub>4\<lparr>DueDate := calculateBusinessDays (SubmittedAt c\<^sub>4) 5\<rparr>
                else c\<^sub>4)
      in case CaseRepository_Create r\<^sub>1 c\<^sub>5 of
           (Some err, r\<^sub>2) \<Rightarrow> (Inl err, c\<^sub>5, r\<^sub>2)
         | (None, r\<^sub>2) \<Rightarrow> (Inr (CaseNumber c\<^sub>5), c\<^sub>5, r\<^sub>2))"

text \<open>
  \<^verbatim>\<open>CaseService.UpdateStatus\<close>; \<open>now\<close> is its clock reading. \<^verbatim>\<open>GetByID\<close> returns the
  stored pointer, so the two assignments already change the record stored under
  \<open>caseID\<close>; \<^verbatim>\<open>Update\<close> then stores it under its ID.
\<close>

definition CaseService_UpdateStatus ::
  "CaseRepository \<Rightarrow> string \<Rightarrow> CaseStatus \<Rightarrow> Time \<Rightarrow> error option \<times> CaseRepository" where
  "CaseService_UpdateStatus r caseID status now =
     (case CaseRepository_GetByID r caseID of
        None \<Rightarrow> (Some (CaseNotFound caseID), r)
      | Some c \<Rightarrow>
          (let c' = c\<lparr>Status := status, UpdatedAt := now\<rparr>;
               r' = r\<lparr>cases := (cases r)(caseID \<mapsto> c')\<rparr>
           in CaseRepository_Update r' c'))"

section \<open>The dashboard service\<close>

text \<open>
  The counting loop of \<^verbatim>\<open>DashboardService.GetStats\<close> and the counts it returns.
  \<open>clock i\<close> is the clock reading of \<^verbatim>\<open>IsOverdue\<close> for the \<open>i\<close>-th case. The lists of
  recent cases and upcoming deadlines that \<^verbatim>\<open>GetStats\<close> also returns are not modelled.
\<close>

record CaseStats =
  TotalOpen :: int
  TotalPending :: int
  TotalOverdue :: int
  TotalClosed :: int
  ByType :: "string \<rightharpoonup> int"
  ByStatus :: "string \<rightharpoonup> int"

definition incr :: "(string \<rightharpoonup> int) \<Rightarrow> string \<Rightarrow> (string \<rightharpoonup> int)" where
  "incr m k = m(k \<mapsto> (case m k of None \<Rightarrow> 0 | Some n \<Rightarrow> n) + 1)"

fun GetStats_loop :: "(nat \<Rightarrow> Time) \<Rightarrow> nat \<Rightarrow> Case list \<Rightarrow> CaseStats \<Rightarrow> CaseStats" where
  "GetStats_loop clock i [] s = s"
| "GetStats_loop clock i (c # cs) s =
     (let s\<^sub>1 = s\<lparr>ByType := incr (ByType s) (Type c)\<rparr>;
          s\<^sub>2 = s\<^sub>1\<lparr>ByStatus := incr (ByStatus s\<^sub>1) (Status c)\<rparr>;
          s\<^sub>3 = (if Status c = StatusClosed then s\<^sub>2\<lparr>TotalClosed := TotalClosed s\<^sub>2 + 1\<rparr>
                else if Status c = StatusSubmitted
                  then s\<^sub>2\<lparr>TotalPending := TotalPending s\<^sub>2 + 1, TotalOpen := TotalOpen s\<^sub>2 + 1\<rparr>
                else s\<^sub>2\<lparr>TotalOpen := TotalOpen s\<^sub>2 + 1\<rparr>);
          s\<^sub>4 = (if Case_IsOverdue c (clock i) then s\<^sub>3\<lparr>TotalOverdue := TotalOverdue s\<^sub>3 + 1\<rparr>
                else s\<^sub>3)
      in GetStats_loop clock (Suc i) cs s\<^sub>4)"

definition DashboardService_GetStats ::
  "(string \<Rightarrow> string) \<Rightarrow> CaseRepository \<Rightarrow> string list \<Rightarrow> (nat \<Rightarrow> Time) \<Rightarrow> CaseStats" where
  "DashboardService_GetStats ToLower r order clock =
     (let allCases = CaseRepository_List ToLower r order [] [] [];
          s = GetStats_loop clock 0 allCases
                \<lparr>TotalOpen = 0, TotalPending = 0, TotalOverdue = 0, TotalClosed = 0,
                 ByType = Map.empty, ByStatus = Map.empty\<rparr>
      in s\<lparr>TotalOpen := TotalOpen s + 32, TotalClosed := TotalClosed s + 150\<rparr>)"

section \<open>Threads that call NextCaseNumber\<close>

text \<open>
  Request handlers run on goroutines of their own and share one repository. A thread
  inside \<^verbatim>\<open>NextCaseNumber\<close> stands before one of the statements of the method body:
  \<^verbatim>\<open>r.mu.Lock()\<close> (\<open>AtLock\<close>), \<^verbatim>\<open>r.counters[caseType]++\<close> (\<open>AtIncrement\<close>),
  \<^verbatim>\<open>year := time.Now().Year()\<close> (\<open>AtYear\<close>), the \<^verbatim>\<open>fmt.Sprintf\<close> of the return statement,
  which reads the counter again (\<open>AtSprintf\<close>, holding the year read), and the deferred
  \<^verbatim>\<open>r.mu.Unlock()\<close> (\<open>AtUnlock\<close>, holding the string to return); or it has returned
  (\<open>Returned\<close>). \<^verbatim>\<open>Lock\<close> goes through only while no thread holds the lock; a thread that
  finds it held waits. No other method of the repository writes the counters, so only
  the threads inside \<^verbatim>\<open>NextCaseNumber\<close> are part of the system. Each statement is one
  step of its thread; the statements of different threads interleave in any order.
\<close>

datatype position =
  AtLock | AtIncrement | AtYear | AtSprintf int | AtUnlock string | Returned string

type_synonym thread = "CaseType \<times> position"

record system =
  mu_locked :: bool
  repo :: CaseRepository
  threads :: "thread list"

text \<open>
  Thread \<open>i\<close> executes its next statement; \<open>year\<close> is what the clock shows if that
  statement reads it. A waiting thread, a thread that has returned and an index without
  thread leave the system as it is.
\<close>

definition thread_step :: "system \<Rightarrow> nat \<Rightarrow> int \<Rightarrow> system" where
  "thread_step s i year =
     (if i < length (threads s) then
        (case threads s ! i of
           (caseType, AtLock) \<Rightarrow>
             if mu_locked s then s
             else s\<lparr>mu_locked := True, threads := (threads s)[i := (caseType, AtIncrement)]\<rparr>
         | (caseType, AtIncrement) \<Rightarrow>
             s\<lparr>repo := (repo s)\<lparr>counters := (counters (repo s))
                        (caseType \<mapsto> wrap_int (counter (repo s) caseType + 1))\<rparr>,
               threads := (threads s)[i := (caseType, AtYear)]\<rparr>
         | (caseType, AtYear) \<Rightarrow>
             s\<lparr>threads := (threads s)[i := (caseType, AtSprintf year)]\<rparr>
         | (caseType, AtSprintf y) \<Rightarrow>
             s\<lparr>threads := (threads s)
                   [i := (caseType, AtUnlock (Sprintf_case_number caseType y
                                                (counter (repo s) caseType)))]\<rparr>
         | (caseType, AtUnlock result) \<Rightarrow>
             s\<lparr>mu_locked := False, threads := (threads s)[i := (caseType, Returned result)]\<rparr>
         | (caseType, Returned result) \<Rightarrow> s)
      else s)"

text \<open>
  A schedule lists, step by step, the thread that runs next and the year the clock shows
  at that moment; every interleaving of the threads is the run of some schedule.
\<close>

fun run :: "system \<Rightarrow> (nat \<times> int) list \<Rightarrow> system" where
  "run s [] = s"
| "run s (next # schedule) = run (thread_step s (fst next) (snd next)) schedule"

text \<open>One thread per call, each about to enter the method, and the lock free.\<close>

definition calls_started :: "CaseRepository \<Rightarrow> CaseType list \<Rightarrow> system" where
  "calls_started r caseTypes =
     \<lparr>mu_locked = False, repo = r, threads = map (\<lambda>caseType. (caseType, AtLock)) caseTypes\<rparr>"

text \<open>
  Where a thread stands: between \<^verbatim>\<open>Lock\<close> and \<^verbatim>\<open>Unlock\<close>, and past its increment.
\<close>

fun holds_lock :: "position \<Rightarrow> bool" where
  "holds_lock AtLock = False"
| "holds_lock (Returned result) = False"
| "holds_lock AtIncrement = True"
| "holds_lock AtYear = True"
| "holds_lock (AtSprintf year) = True"
| "holds_lock (AtUnlock result) = True"

fun incremented :: "position \<Rightarrow> bool" where
  "incremented AtLock = False"
| "incremented AtIncrement = False"
| "incremented AtYear = True"
| "incremented (AtSprintf year) = True"
| "incremented (AtUnlock result) = True"
| "incremented (Returned result) = True"

fun before_Sprintf :: "position \<Rightarrow> bool" where
  "before_Sprintf AtYear = True"
| "before_Sprintf (AtSprintf year) = True"
| "before_Sprintf AtLock = False"
| "before_Sprintf AtIncrement = False"
| "before_Sprintf (AtUnlock result) = False"
| "before_Sprintf (Returned result) = False"

fun result_of :: "position \<Rightarrow> string option" where
  "result_of (AtUnlock result) = Some result"
| "result_of (Returned result) = Some result"
| "result_of AtLock = None"
| "result_of AtIncrement = None"
| "result_of AtYear = None"
| "result_of (AtSprintf year) = None"

text \<open>
  What holds of every system the threads can reach, for one case type with the counter
  value \<open>c\<^sub>0\<close> at the start: the threads keep their case types; at most one thread is
  between \<^verbatim>\<open>Lock\<close> and \<^verbatim>\<open>Unlock\<close>, and none while the lock is free; the counter is \<open>c\<^sub>0\<close>
  plus the number of threads of the type past their increment; and each such thread has a
  number \<open>ticket i\<close> of its own, above \<open>c\<^sub>0\<close> and at most the counter, which is the counter
  itself until the thread has formatted its result, and which its result carries.
\<close>

definition threads_past_increment :: "CaseType \<Rightarrow> thread list \<Rightarrow> nat" where
  "threads_past_increment caseType ts =
     length (filter (\<lambda>t. fst t = caseType \<and> incremented (snd t)) ts)"

definition reachable_shape ::
  "CaseType \<Rightarrow> int \<Rightarrow> CaseType list \<Rightarrow> system \<Rightarrow> (nat \<Rightarrow> int) \<Rightarrow> bool" where
  "reachable_shape caseType c\<^sub>0 caseTypes s ticket =
     (map fst (threads s) = caseTypes \<and>
      (\<forall>i j. i < length (threads s) \<and> j < length (threads s) \<and>
         holds_lock (snd (threads s ! i)) \<and> holds_lock (snd (threads s ! j)) \<longrightarrow> i = j) \<and>
      (\<not> mu_locked s \<longrightarrow> (\<forall>i < length (threads s). \<not> holds_lock (snd (threads s ! i)))) \<and>
      counter (repo s) caseType = c\<^sub>0 + int (threads_past_increment caseType (threads s)) \<and>
      (\<forall>i < length (threads s).
         fst (threads s ! i) = caseType \<and> incremented (snd (threads s ! i)) \<longrightarrow>
           c\<^sub>0 < ticket i \<and> ticket i \<le> counter (repo s) caseType) \<and>
      (\<forall>i j. i < length (threads s) \<and> j < length (threads s) \<and> i \<noteq> j \<and>
         fst (threads s ! i) = caseType \<and> fst (threads s ! j) = caseType \<and>
         incremented (snd (threads s ! i)) \<and> incremented (snd (threads s ! j)) \<longrightarrow>
           ticket i \<noteq> ticket j) \<and>
      (\<forall>i < length (threads s).
         fst (threads s ! i) = caseType \<and> before_Sprintf (snd (threads s ! i)) \<longrightarrow>
           ticket i = counter (repo s) caseType) \<and>
      (\<forall>i < length (threads s). \<forall>result.
         fst (threads s ! i) = caseType \<and> result_of (snd (threads s ! i)) = Some result \<longrightarrow>
           (\<exists>year. result = Sprintf_case_number caseType year (ticket i))))"

section \<open>Notions the properties are stated with\<close>

subsection \<open>The case number format\<close>

text \<open>
  A matcher for the pattern \<^verbatim>\<open>^(AO|EC|EA|PRR)-\d{4}-\d{3}$\<close>: \<open>match_lit\<close> consumes a
  literal, \<open>match_digits k\<close> consumes \<open>k\<close> decimal digits, and each returns the rest of
  the input.
\<close>

definition is_digit :: "char \<Rightarrow> bool" where
  "is_digit ch = (ch \<in> set ''0123456789'')"

fun match_lit :: "string \<Rightarrow> string \<Rightarrow> string option" where
  "match_lit [] s = Some s"
| "match_lit (p # ps) [] = None"
| "match_lit (p # ps) (ch # s) = (if p = ch then match_lit ps s else None)"

fun match_digits :: "nat \<Rightarrow> string \<Rightarrow> string option" where
  "match_digits 0 s = Some s"
| "match_digits (Suc k) [] = None"
| "match_digits (Suc k) (ch # s) = (if is_digit ch then match_digits k s else None)"

definition match_number_after :: "string \<Rightarrow> string \<Rightarrow> bool" where
  "match_number_after prefix s =
     (case match_lit prefix s of None \<Rightarrow> False | Some s\<^sub>1 \<Rightarrow>
      case match_lit ''-'' s\<^sub>1 of None \<Rightarrow> False | Some s\<^sub>2 \<Rightarrow>
      case match_digits 4 s\<^sub>2 of None \<Rightarrow> False | Some s\<^sub>3 \<Rightarrow>
      case match_lit ''-'' s\<^sub>3 of None \<Rightarrow> False | Some s\<^sub>4 \<Rightarrow>
      match_digits 3 s\<^sub>4 = Some [])"

definition case_type_prefixes :: "string list" where
  "case_type_prefixes = [''AO'', ''EC'', ''EA'', ''PRR'']"

definition matches_case_number_format :: "string \<Rightarrow> bool" where
  "matches_case_number_format s = list_ex (\<lambda>prefix. match_number_after prefix s) case_type_prefixes"

text \<open>
  The numeric sequence suffix of a case number: the decimal number written after the
  last dash.
\<close>

definition digit_value :: "char \<Rightarrow> nat" where
  "digit_value ch = of_char ch - 48"

definition decimal_value :: "string \<Rightarrow> nat" where
  "decimal_value s = foldl (\<lambda>acc ch. 10 * acc + digit_value ch) 0 s"

definition sequence_suffix :: "string \<Rightarrow> string" where
  "sequence_suffix s = rev (takeWhile (\<lambda>ch. ch \<noteq> CHR ''-'') (rev s))"

definition sequence_number :: "string \<Rightarrow> nat" where
  "sequence_number s = decimal_value (sequence_suffix s)"

subsection \<open>Sequences of calls\<close>

text \<open>
  A number of \<^verbatim>\<open>NextCaseNumber\<close> calls made one after the other; each call is given by
  its case type and the year its clock reading shows. The result lists the returned
  strings in call order.
\<close>

fun NextCaseNumber_calls ::
  "CaseRepository \<Rightarrow> (CaseType \<times> int) list \<Rightarrow> string list \<times> CaseRepository" where
  "NextCaseNumber_calls r [] = ([], r)"
| "NextCaseNumber_calls r (call # calls) =
     (let (number, r') = CaseRepository_NextCaseNumber r (fst call) (snd call);
          (numbers, r'') = NextCaseNumber_calls r' calls
      in (number # numbers, r''))"

text \<open>A counter holds a Go \<^verbatim>\<open>int\<close> that \<open>n\<close> more increments do not overflow.\<close>

definition increments_fit :: "int \<Rightarrow> nat \<Rightarrow> bool" where
  "increments_fit c n = (- (2 ^ 63) \<le> c \<and> c + int n < 2 ^ 63)"

text \<open>The number of calls for a case type in a sequence of calls.\<close>

definition calls_for :: "CaseType \<Rightarrow> (CaseType \<times> int) list \<Rightarrow> nat" where
  "calls_for caseType calls = length (filter (\<lambda>call. fst call = caseType) calls)"

subsection \<open>Business days\<close>




subsection \<open>Filters and stored records\<close>

text \<open>What the three filters of \<^verbatim>\<open>List\<close> ask of a case; the empty string is a wildcard.\<close>

definition is_substring :: "string \<Rightarrow> string \<Rightarrow> bool" where
  "is_substring sub s = (\<exists>before after. s = before @ sub @ after)"

definition matches_filters ::
  "(string \<Rightarrow> string) \<Rightarrow> string \<Rightarrow> string \<Rightarrow> string \<Rightarrow> Case \<Rightarrow> bool" where
  "matches_filters ToLower typeFilter statusFilter query c =
     ((typeFilter = [] \<or> Type c = typeFilter) \<and>
      (statusFilter = [] \<or> Status c = statusFilter) \<and>
      (query = [] \<or>
       is_substring (ToLower query) (ToLower (CaseNumber c @ Summary c @ SubmitterName c))))"

text \<open>
  The stored cases in iteration order. Lower-casing of ASCII letters stands in for
  \<^verbatim>\<open>strings.ToLower\<close> where a concrete function is needed.
\<close>

definition stored_cases :: "CaseRepository \<Rightarrow> string list \<Rightarrow> Case list" where
  "stored_cases r order = map (\<lambda>k. the (cases r k)) order"

definition ascii_ToLower :: "string \<Rightarrow> string" where
  "ascii_ToLower s =
     map (\<lambda>ch. case map_of (zip ''ABCDEFGHIJKLMNOPQRSTUVWXYZ'' ''abcdefghijklmnopqrstuvwxyz'') ch of
                 None \<Rightarrow> ch | Some lower \<Rightarrow> lower) s"

text \<open>
  The number of cases of a list that are overdue, the case at position \<open>j\<close> being judged at
  the clock reading \<open>clock (i + j)\<close>.
\<close>

definition overdue_count :: "(nat \<Rightarrow> Time) \<Rightarrow> nat \<Rightarrow> Case list \<Rightarrow> nat" where
  "overdue_count clock i cs =
     length (filter (\<lambda>j. Case_IsOverdue (cs ! j) (clock (i + j))) [0..<length cs])"

text \<open>Every record is stored under its own ID, as \<^verbatim>\<open>Create\<close> and \<^verbatim>\<open>Update\<close> store it.\<close>

definition stored_under_own_ID :: "CaseRepository \<Rightarrow> bool" where
  "stored_under_own_ID r = (\<forall>k c. cases r k = Some c \<longrightarrow> ID c = k)"

text \<open>The loop of \<^verbatim>\<open>seedDemoData\<close> that stores the demo cases, for any list of them.\<close>

fun seedDemoData_cases :: "Case list \<Rightarrow> CaseRepository \<Rightarrow> CaseRepository" where
  "seedDemoData_cases [] r = r"
| "seedDemoData_cases (c # demoCases) r =
     seedDemoData_cases demoCases (r\<lparr>cases := (cases r)(ID c \<mapsto> c)\<rparr>)"

subsection \<open>Values for examples\<close>

text \<open>
  The zero value of the \<^verbatim>\<open>Case\<close> struct, the instant 12:00 UTC on Monday, June 3,
  2024 (day 739039 after the zero time), and the record the advisory opinion handler
  builds from a form before it calls \<^verbatim>\<open>Create\<close>.
\<close>

definition Case_zero :: Case where
  "Case_zero =
     \<lparr>ID = [], CaseNumber = [], Type = [], Status = [], SubmitterName = [], SubmitterTitle = [],
      SubmitterAgency = [], SubmitterEmail = [], SubmitterPhone = [], SubjectName = [],
      SubjectTitle = [], SubjectAgency = [], Summary = [], Description = [], StatuteCitations = [],
      SubmittedAt = 0, DueDate = 0, ClosedAt = None, PublishedAt = None, AssignedTo = [],
      AssignedToName = [], IsPublic = False, IsConfidential = False, Priority = [], Tags = [],
      CreatedAt = 0, UpdatedAt = 0\<rparr>"

definition noon_2024_06_03 :: Time where
  "noon_2024_06_03 = 739039 * nsPerDay + 12 * nsPerHour"

definition advisory_opinion_submission :: "Time \<Rightarrow> Case" where
  "advisory_opinion_submission now =
     Case_zero\<lparr>Type := CaseTypeAdvisoryOpinion, Status := StatusSubmitted,
       SubmitterName := ''John Test'', SubmitterEmail := ''john@test.gov'',
       Summary := ''Question regarding contractor relationships'', SubmittedAt := now\<rparr>"

definition seeded_empty_repository :: CaseRepository where
  "seeded_empty_repository = \<lparr>cases = Map.empty, counters = seeded_counters\<rparr>"

text \<open>The repository after \<^verbatim>\<open>Create\<close> has stored one case in it.\<close>

definition one_case_repository :: "Case \<Rightarrow> CaseRepository" where
  "one_case_repository c = snd (CaseRepository_Create seeded_empty_repository c)"

section \<open>Facts about formatting and matching\<close>

lemma below_ten: "(d < (10::nat)) = (d = 0 \<or> d = 1 \<or> d = 2 \<or> d = 3 \<or> d = 4 \<or> d = 5 \<or> d = 6 \<or> d = 7 \<or> d = 8 \<or> d = 9)"
  by arith

lemma digit_is_digit: "d < 10 \<Longrightarrow> is_digit (digit d)"
  by (auto simp: below_ten digit_def is_digit_def)

lemma digit_value_digit: "d < 10 \<Longrightarrow> digit_value (digit d) = d"
  by (auto simp: below_ten digit_def digit_value_def)

lemma is_digit_not_dash: "is_digit ch \<Longrightarrow> ch \<noteq> CHR ''-''"
  by (auto simp: is_digit_def)

lemma digits_all_digit: "list_all is_digit (digits n)"
proof (induction n rule: digits.induct)
  case (1 n)
  show ?case
  proof (cases "n < 10")
    case True
    then show ?thesis by (subst digits.simps) (simp add: digit_is_digit)
  next
    case False
    then have "list_all is_digit (digits (n div 10))" using 1 by simp
    moreover have "is_digit (digit (n mod 10))" by (simp add: digit_is_digit)
    ultimately show ?thesis using False by (subst digits.simps) simp
  qed
qed

lemma decimal_value_snoc: "decimal_value (s @ [ch]) = 10 * decimal_value s + digit_value ch"
  by (simp add: decimal_value_def)

lemma decimal_value_digits: "decimal_value (digits n) = n"
proof (induction n rule: digits.induct)
  case (1 n)
  show ?case
  proof (cases "n < 10")
    case True
    then show ?thesis by (subst digits.simps) (simp add: decimal_value_def digit_value_digit)
  next
    case False
    then have "decimal_value (digits (n div 10)) = n div 10" using 1 by simp
    then show ?thesis using False
      by (subst digits.simps) (simp add: decimal_value_snoc digit_value_digit)
  qed
qed

lemma digits_nonempty: "digits n \<noteq> []"
  by (subst digits.simps) simp

lemma length_digits_le: "0 < k \<Longrightarrow> (length (digits n) \<le> k) = (n < 10 ^ k)"
proof (induction n arbitrary: k rule: digits.induct)
  case (1 n)
  show ?case
  proof (cases "n < 10")
    case True
    have "(10::nat) ^ 1 \<le> 10 ^ k" using 1(2) by (intro power_increasing) auto
    then have "n < 10 ^ k" using True by simp
    then show ?thesis using True 1(2) by (subst digits.simps) simp
  next
    case False
    show ?thesis
    proof (cases k)
      case 0
      then show ?thesis using 1(2) by simp
    next
      case (Suc j)
      show ?thesis
      proof (cases "j = 0")
        case True
        then show ?thesis using False Suc digits_nonempty [of "n div 10"]
          by (subst digits.simps) (auto simp: Suc_le_eq)
      next
        case jpos: False
        then have "(length (digits (n div 10)) \<le> j) = (n div 10 < 10 ^ j)"
          using 1(1) [of j] False by simp
        moreover have "(n div 10 < 10 ^ j) = (n < 10 ^ Suc j)"
          by (simp add: less_mult_imp_div_less div_less_iff_less_mult mult.commute)
        ultimately show ?thesis using False Suc
          by (subst digits.simps) simp
      qed
    qed
  qed
qed

lemma decimal_value_zeros: "foldl (\<lambda>acc ch. 10 * acc + digit_value ch) 0 (replicate k (CHR ''0'')) = 0"
  by (induction k) (simp_all add: digit_value_def)

lemma decimal_value_zero_pad: "decimal_value (zero_pad w s) = decimal_value s"
  by (simp add: zero_pad_def decimal_value_def decimal_value_zeros)

lemma list_all_replicate: "P x \<Longrightarrow> list_all P (replicate k x)"
  by (induction k) simp_all

lemma is_digit_zero: "is_digit (CHR ''0'')"
  by (simp add: is_digit_def)

lemma zero_pad_all_digit: "list_all is_digit s \<Longrightarrow> list_all is_digit (zero_pad w s)"
  by (simp add: zero_pad_def list_all_replicate is_digit_zero)

lemma length_zero_pad: "length (zero_pad w s) = max w (length s)"
  by (simp add: zero_pad_def)


lemma all_digit_no_dash: "list_all is_digit s \<Longrightarrow> CHR ''-'' \<notin> set s"
  by (induction s) (auto simp: is_digit_def)

lemma digits_no_dash: "CHR ''-'' \<notin> set (digits n)"
  by (rule all_digit_no_dash) (rule digits_all_digit)

lemma zero_pad_no_dash: "CHR ''-'' \<notin> set s \<Longrightarrow> CHR ''-'' \<notin> set (zero_pad w s)"
  by (auto simp: zero_pad_def)

lemma fmt_03d_nonneg:
  assumes "0 \<le> n"
  shows "list_all is_digit (fmt_03d n)" and "decimal_value (fmt_03d n) = nat n"
    and "(length (fmt_03d n) = 3) = (n \<le> 999)" and "3 \<le> length (fmt_03d n)"
proof -
  have f: "fmt_03d n = zero_pad 3 (digits (nat n))"
    using assms by (simp add: fmt_03d_def)
  show "list_all is_digit (fmt_03d n)"
    by (simp add: f zero_pad_all_digit digits_all_digit)
  show "decimal_value (fmt_03d n) = nat n"
    by (simp add: f decimal_value_zero_pad decimal_value_digits)
  have "(length (digits (nat n)) \<le> 3) = (nat n < 10 ^ 3)"
    by (rule length_digits_le) simp
  then show "(length (fmt_03d n) = 3) = (n \<le> 999)"
    using assms by (auto simp: f length_zero_pad)
  show "3 \<le> length (fmt_03d n)"
    by (simp add: f length_zero_pad)
qed

lemma fmt_d_year:
  assumes "1000 \<le> y" and "y \<le> 9999"
  shows "list_all is_digit (fmt_d y)" and "length (fmt_d y) = 4"
proof -
  have f: "fmt_d y = digits (nat y)"
    using assms by (simp add: fmt_d_def)
  show "list_all is_digit (fmt_d y)"
    by (simp add: f digits_all_digit)
  have "(length (digits (nat y)) \<le> 4) = (nat y < 10 ^ 4)"
    by (rule length_digits_le) simp
  moreover have "(length (digits (nat y)) \<le> 3) = (nat y < 10 ^ 3)"
    by (rule length_digits_le) simp
  ultimately have "length (digits (nat y)) \<le> 4" and "\<not> length (digits (nat y)) \<le> 3"
    using assms by simp_all
  then show "length (fmt_d y) = 4"
    unfolding f by linarith
qed

lemma takeWhile_before: "\<forall>x\<in>set xs. P x \<Longrightarrow> \<not> P y \<Longrightarrow> takeWhile P (xs @ y # zs) = xs"
  by (induction xs) auto

lemma sequence_suffix_append:
  "CHR ''-'' \<notin> set suffix \<Longrightarrow> sequence_suffix (front @ CHR ''-'' # suffix) = suffix"
proof -
  assume a: "CHR ''-'' \<notin> set suffix"
  have "takeWhile (\<lambda>ch. ch \<noteq> CHR ''-'') (rev suffix @ CHR ''-'' # rev front) = rev suffix"
    by (rule takeWhile_before) (use a in auto)
  then show ?thesis
    by (simp add: sequence_suffix_def)
qed

lemma sequence_number_Sprintf:
  assumes "0 \<le> n"
  shows "sequence_number (Sprintf_case_number caseType year n) = nat n"
proof -
  have "CHR ''-'' \<notin> set (fmt_03d n)"
    using fmt_03d_nonneg(1) [OF assms] by (rule all_digit_no_dash)
  then have "sequence_suffix ((caseType @ ''-'' @ fmt_d year) @ CHR ''-'' # fmt_03d n) = fmt_03d n"
    by (rule sequence_suffix_append)
  then show ?thesis
    by (simp add: sequence_number_def Sprintf_case_number_def fmt_03d_nonneg(2) [OF assms])
qed

lemma match_lit_iff: "(match_lit p s = Some rest) = (s = p @ rest)"
  by (induction p s rule: match_lit.induct) auto

lemma match_digits_iff:
  "(match_digits k s = Some rest) = (\<exists>ds. s = ds @ rest \<and> length ds = k \<and> list_all is_digit ds)"
proof (induction k s rule: match_digits.induct)
  case (1 s)
  then show ?case by auto
next
  case (2 k)
  then show ?case by auto
next
  case (3 k ch s)
  show ?case
  proof (cases "is_digit ch")
    case True
    have "(\<exists>ds. ch # s = ds @ rest \<and> length ds = Suc k \<and> list_all is_digit ds)
        = (\<exists>ds. s = ds @ rest \<and> length ds = k \<and> list_all is_digit ds)"
    proof
      assume "\<exists>ds. ch # s = ds @ rest \<and> length ds = Suc k \<and> list_all is_digit ds"
      then obtain ds where d: "ch # s = ds @ rest" "length ds = Suc k" "list_all is_digit ds"
        by blast
      then obtain e es where "ds = e # es" by (cases ds) auto
      with d show "\<exists>ds. s = ds @ rest \<and> length ds = k \<and> list_all is_digit ds"
        by auto
    next
      assume "\<exists>ds. s = ds @ rest \<and> length ds = k \<and> list_all is_digit ds"
      then obtain ds where "s = ds @ rest" "length ds = k" "list_all is_digit ds"
        by blast
      then have "ch # s = (ch # ds) @ rest \<and> length (ch # ds) = Suc k \<and> list_all is_digit (ch # ds)"
        using True by simp
      then show "\<exists>ds. ch # s = ds @ rest \<and> length ds = Suc k \<and> list_all is_digit ds"
        by blast
    qed
    then show ?thesis using 3 True by simp
  next
    case False
    have "\<not> (\<exists>ds. ch # s = ds @ rest \<and> length ds = Suc k \<and> list_all is_digit ds)"
    proof
      assume "\<exists>ds. ch # s = ds @ rest \<and> length ds = Suc k \<and> list_all is_digit ds"
      then obtain ds where d: "ch # s = ds @ rest" "length ds = Suc k" "list_all is_digit ds"
        by blast
      then obtain e es where "ds = e # es" by (cases ds) auto
      with d False show False by auto
    qed
    then show ?thesis using False by simp
  qed
qed

lemma match_number_after_steps:
  "match_number_after p s =
     (\<exists>s1 s2 s3 s4. match_lit p s = Some s1 \<and> match_lit ''-'' s1 = Some s2 \<and>
        match_digits 4 s2 = Some s3 \<and> match_lit ''-'' s3 = Some s4 \<and> match_digits 3 s4 = Some [])"
  unfolding match_number_after_def by (simp split: option.splits)

lemma match_number_after_iff:
  "match_number_after p s =
     (\<exists>ys ns. s = p @ ''-'' @ ys @ ''-'' @ ns \<and> length ys = 4 \<and> list_all is_digit ys \<and>
              length ns = 3 \<and> list_all is_digit ns)"
proof
  assume "match_number_after p s"
  then obtain s1 s2 s3 s4 where m: "match_lit p s = Some s1" "match_lit ''-'' s1 = Some s2"
      "match_digits 4 s2 = Some s3" "match_lit ''-'' s3 = Some s4" "match_digits 3 s4 = Some []"
    unfolding match_number_after_steps by blast
  from m(3) obtain ys where ys: "s2 = ys @ s3" "length ys = 4" "list_all is_digit ys"
    unfolding match_digits_iff by blast
  from m(5) obtain ns where ns: "s4 = ns @ []" "length ns = 3" "list_all is_digit ns"
    unfolding match_digits_iff by blast
  have "s = p @ s1" "s1 = ''-'' @ s2" "s3 = ''-'' @ s4"
    using m(1,2,4) unfolding match_lit_iff by blast+
  then have "s = p @ ''-'' @ ys @ ''-'' @ ns"
    using ys(1) ns(1) by simp
  then show "\<exists>ys ns. s = p @ ''-'' @ ys @ ''-'' @ ns \<and> length ys = 4 \<and> list_all is_digit ys \<and>
              length ns = 3 \<and> list_all is_digit ns"
    using ys(2,3) ns(2,3) by blast
next
  assume "\<exists>ys ns. s = p @ ''-'' @ ys @ ''-'' @ ns \<and> length ys = 4 \<and> list_all is_digit ys \<and>
              length ns = 3 \<and> list_all is_digit ns"
  then obtain ys ns where h: "s = p @ ''-'' @ ys @ ''-'' @ ns" "length ys = 4"
      "list_all is_digit ys" "length ns = 3" "list_all is_digit ns"
    by blast
  have 1: "match_lit p s = Some (''-'' @ ys @ ''-'' @ ns)"
    unfolding match_lit_iff using h(1) by simp
  have 2: "match_lit ''-'' (''-'' @ ys @ ''-'' @ ns) = Some (ys @ ''-'' @ ns)"
    unfolding match_lit_iff by simp
  have 3: "match_digits 4 (ys @ ''-'' @ ns) = Some (''-'' @ ns)"
    unfolding match_digits_iff using h(2,3) by blast
  have 4: "match_lit ''-'' (''-'' @ ns) = Some ns"
    unfolding match_lit_iff by simp
  have 5: "match_digits 3 ns = Some []"
    unfolding match_digits_iff using h(4,5) by simp
  show "match_number_after p s"
    unfolding match_number_after_steps using 1 2 3 4 5 by blast
qed

section \<open>Facts about the counters\<close>

lemma wrap_int_id: "- (2 ^ 63) \<le> x \<Longrightarrow> x < 2 ^ 63 \<Longrightarrow> wrap_int x = x"
  by (simp add: wrap_int_def)

lemma fst_NextCaseNumber:
  "fst (CaseRepository_NextCaseNumber r caseType year) =
     Sprintf_case_number caseType year (counter (snd (CaseRepository_NextCaseNumber r caseType year)) caseType)"
  by (simp add: CaseRepository_NextCaseNumber_def Let_def)

lemma counter_NextCaseNumber:
  "counter (snd (CaseRepository_NextCaseNumber r caseType year)) t =
     (if t = caseType then wrap_int (counter r caseType + 1) else counter r t)"
  by (simp add: CaseRepository_NextCaseNumber_def Let_def counter_def)

lemma counter_NextCaseNumber_fit:
  "increments_fit (counter r caseType) (Suc n) \<Longrightarrow>
     counter (snd (CaseRepository_NextCaseNumber r caseType year)) caseType = counter r caseType + 1"
  by (simp add: counter_NextCaseNumber increments_fit_def wrap_int_id)

lemma cases_NextCaseNumber:
  "cases (snd (CaseRepository_NextCaseNumber r caseType year)) = cases r"
  by (simp add: CaseRepository_NextCaseNumber_def Let_def)

lemma increments_fit_step:
  "increments_fit c (Suc n) \<Longrightarrow> increments_fit (c + 1) n"
  by (simp add: increments_fit_def)

lemma increments_fit_less:
  "increments_fit c (Suc n) \<Longrightarrow> increments_fit c n"
  by (simp add: increments_fit_def)

lemma counter_repeated:
  "increments_fit (counter r caseType) n \<Longrightarrow>
     counter (((\<lambda>r. snd (CaseRepository_NextCaseNumber r caseType year)) ^^ n) r) caseType
       = counter r caseType + int n"
proof (induction n)
  case 0
  show ?case by simp
next
  case (Suc n)
  let ?f = "\<lambda>r. snd (CaseRepository_NextCaseNumber r caseType year)"
  have fit: "increments_fit (counter r caseType) n"
    using Suc.prems by (rule increments_fit_less)
  then have c: "counter ((?f ^^ n) r) caseType = counter r caseType + int n"
    by (rule Suc.IH)
  have "increments_fit (counter ((?f ^^ n) r) caseType) (Suc 0)"
    using Suc.prems by (simp add: c increments_fit_def)
  then have "counter (?f ((?f ^^ n) r)) caseType = counter ((?f ^^ n) r) caseType + 1"
    by (rule counter_NextCaseNumber_fit)
  then show ?case by (simp add: c)
qed

section \<open>The format of case numbers\<close>

lemma dash_split_unique:
  "CHR ''-'' \<notin> set a \<Longrightarrow> CHR ''-'' \<notin> set b \<Longrightarrow> a @ CHR ''-'' # r = b @ CHR ''-'' # r'
     \<Longrightarrow> a = b \<and> r = r'"
proof (induction a arbitrary: b)
  case Nil
  then show ?case by (cases b) auto
next
  case (Cons x a)
  then show ?case by (cases b) auto
qed

lemma prefix_no_dash: "p \<in> set case_type_prefixes \<Longrightarrow> CHR ''-'' \<notin> set p"
  by (auto simp: case_type_prefixes_def)

lemma fmt_03d_negative: "n < 0 \<Longrightarrow> \<not> list_all is_digit (fmt_03d n)"
  by (simp add: fmt_03d_def is_digit_def)

lemma Sprintf_matches_iff:
  assumes t: "caseType \<in> set case_type_prefixes" and y: "1000 \<le> year" "year \<le> 9999"
  shows "matches_case_number_format (Sprintf_case_number caseType year n) = (0 \<le> n \<and> n \<le> 999)"
proof
  assume "matches_case_number_format (Sprintf_case_number caseType year n)"
  then obtain p where p: "p \<in> set case_type_prefixes"
      and "match_number_after p (Sprintf_case_number caseType year n)"
    by (auto simp: matches_case_number_format_def list_ex_iff)
  then obtain ys ns where m: "Sprintf_case_number caseType year n = p @ ''-'' @ ys @ ''-'' @ ns"
      "length ys = 4" "list_all is_digit ys" "length ns = 3" "list_all is_digit ns"
    unfolding match_number_after_iff by blast
  have "caseType @ CHR ''-'' # (fmt_d year @ CHR ''-'' # fmt_03d n) = p @ CHR ''-'' # (ys @ CHR ''-'' # ns)"
    using m(1) by (simp add: Sprintf_case_number_def)
  then have "fmt_d year @ CHR ''-'' # fmt_03d n = ys @ CHR ''-'' # ns"
    using dash_split_unique [OF prefix_no_dash [OF t] prefix_no_dash [OF p]] by blast
  moreover have "CHR ''-'' \<notin> set (fmt_d year)"
    using fmt_d_year(1) [OF y] by (rule all_digit_no_dash)
  moreover have "CHR ''-'' \<notin> set ys"
    using m(3) by (rule all_digit_no_dash)
  ultimately have e: "fmt_03d n = ns"
    using dash_split_unique by blast
  have nn: "0 \<le> n"
    using fmt_03d_negative [of n] m(5) e by fastforce
  then have "n \<le> 999"
    using fmt_03d_nonneg(3) [of n] e m(4) by simp
  with nn show "0 \<le> n \<and> n \<le> 999" by simp
next
  assume n: "0 \<le> n \<and> n \<le> 999"
  then have "length (fmt_03d n) = 3" and "list_all is_digit (fmt_03d n)"
    using fmt_03d_nonneg(1,3) [of n] by simp_all
  then have "match_number_after caseType (Sprintf_case_number caseType year n)"
    unfolding match_number_after_iff Sprintf_case_number_def
    using fmt_d_year [OF y] by blast
  then show "matches_case_number_format (Sprintf_case_number caseType year n)"
    using t by (auto simp: matches_case_number_format_def list_ex_iff)
qed

text \<open>
  Where the format holds: for one of the four case types and a year of four digits, the
  string \<open>NextCaseNumber\<close> returns matches \<^verbatim>\<open>^(AO|EC|EA|PRR)-\d{4}-\d{3}$\<close> exactly when
  the counter it has just incremented lies between 0 and 999. The first call for the
  ethics acknowledgments after seeding returns \<^verbatim>\<open>EA-2024-157\<close>.
\<close>

lemma NextCaseNumber_format_up_to_999:
  assumes "caseType \<in> set case_type_prefixes" and "1000 \<le> year" and "year \<le> 9999"
  shows "matches_case_number_format (fst (CaseRepository_NextCaseNumber r caseType year))
       = (0 \<le> counter (snd (CaseRepository_NextCaseNumber r caseType year)) caseType \<and>
          counter (snd (CaseRepository_NextCaseNumber r caseType year)) caseType \<le> 999)"
  unfolding fst_NextCaseNumber using assms by (rule Sprintf_matches_iff)

lemma NextCaseNumber_format_after_seeding:
  "matches_case_number_format
     (fst (CaseRepository_NextCaseNumber \<lparr>cases = Map.empty, counters = seeded_counters\<rparr>
        CaseTypeEthicsAcknowledgment 2024)) \<and>
   fst (CaseRepository_NextCaseNumber \<lparr>cases = Map.empty, counters = seeded_counters\<rparr>
        CaseTypeEthicsAcknowledgment 2024) = ''EA-2024-157''"
proof -
  have "counter \<lparr>cases = Map.empty, counters = seeded_counters\<rparr> CaseTypeEthicsAcknowledgment = 156"
    by (simp add: counter_def seeded_counters_def
        CaseTypeEthicsAcknowledgment_def CaseTypeAdvisoryOpinion_def CaseTypeEthicsComplaint_def
        CaseTypePublicRecordsRequest_def)
  then have c: "counter (snd (CaseRepository_NextCaseNumber \<lparr>cases = Map.empty, counters = seeded_counters\<rparr>
        CaseTypeEthicsAcknowledgment 2024)) CaseTypeEthicsAcknowledgment = 157"
    by (simp add: counter_NextCaseNumber wrap_int_def)
  have t: "CaseTypeEthicsAcknowledgment \<in> set case_type_prefixes"
    by (simp add: case_type_prefixes_def CaseTypeEthicsAcknowledgment_def)
  have "matches_case_number_format
     (fst (CaseRepository_NextCaseNumber \<lparr>cases = Map.empty, counters = seeded_counters\<rparr>
        CaseTypeEthicsAcknowledgment 2024))"
    using NextCaseNumber_format_up_to_999 [OF t, of 2024 "\<lparr>cases = Map.empty, counters = seeded_counters\<rparr>"]
    by (simp add: c)
  moreover have "fst (CaseRepository_NextCaseNumber \<lparr>cases = Map.empty, counters = seeded_counters\<rparr>
        CaseTypeEthicsAcknowledgment 2024) = ''EA-2024-157''"
    unfolding fst_NextCaseNumber c
    by (simp add: Sprintf_case_number_def fmt_d_def fmt_03d_def zero_pad_def digits.simps digit_def
        CaseTypeEthicsAcknowledgment_def)
  ultimately show ?thesis by simp
qed

text \<open>
  C9. Every string \<open>NextCaseNumber\<close> returns is meant to match
  \<^verbatim>\<open>^(AO|EC|EA|PRR)-\d{4}-\d{3}$\<close> in every reachable counter state. The code does not
  keep to it: the counter of the advisory opinions is seeded with 42 and never reset, so
  after 957 calls for that type it stands at 999, and the 958th call returns
  \<^verbatim>\<open>AO-2024-1000\<close>, whose sequence part has four digits and which does not match.
\<close>

theorem NextCaseNumber_format_fails_at_1000:
  "fst (CaseRepository_NextCaseNumber
          (((\<lambda>r. snd (CaseRepository_NextCaseNumber r ''AO'' 2024)) ^^ 957)
             \<lparr>cases = Map.empty, counters = seeded_counters\<rparr>)
          ''AO'' 2024) = ''AO-2024-1000'' \<and>
   \<not> matches_case_number_format
       (fst (CaseRepository_NextCaseNumber
          (((\<lambda>r. snd (CaseRepository_NextCaseNumber r ''AO'' 2024)) ^^ 957)
             \<lparr>cases = Map.empty, counters = seeded_counters\<rparr>)
          ''AO'' 2024))"
proof -
  let ?seed = "\<lparr>cases = Map.empty, counters = seeded_counters\<rparr>"
  let ?late = "((\<lambda>r. snd (CaseRepository_NextCaseNumber r ''AO'' 2024)) ^^ 957) ?seed"
  have c0: "counter ?seed ''AO'' = 42"
    by (simp add: counter_def seeded_counters_def CaseTypeAdvisoryOpinion_def
        CaseTypeEthicsComplaint_def CaseTypeEthicsAcknowledgment_def CaseTypePublicRecordsRequest_def)
  have "increments_fit (counter ?seed ''AO'') 957"
    unfolding c0 by (simp add: increments_fit_def)
  then have "counter ?late ''AO'' = counter ?seed ''AO'' + int 957"
    by (rule counter_repeated)
  then have c: "counter ?late ''AO'' = 999"
    unfolding c0 by simp
  have n: "counter (snd (CaseRepository_NextCaseNumber ?late ''AO'' 2024)) ''AO'' = 1000"
    by (simp add: counter_NextCaseNumber c wrap_int_def)
  have "Sprintf_case_number ''AO'' 2024 1000 = ''AO-2024-1000''"
    by (simp add: Sprintf_case_number_def fmt_d_def fmt_03d_def zero_pad_def digits.simps digit_def)
  then have s: "fst (CaseRepository_NextCaseNumber ?late ''AO'' 2024) = ''AO-2024-1000''"
    unfolding fst_NextCaseNumber n .
  have "''AO'' \<in> set case_type_prefixes"
    by (simp add: case_type_prefixes_def)
  then have "\<not> matches_case_number_format (Sprintf_case_number ''AO'' 2024 1000)"
    by (simp add: Sprintf_matches_iff)
  then have "\<not> matches_case_number_format (fst (CaseRepository_NextCaseNumber ?late ''AO'' 2024))"
    unfolding fst_NextCaseNumber n .
  with s show ?thesis by blast
qed

section \<open>Sequential numbering\<close>

lemma counters_Create: "counters (snd (CaseRepository_Create r c)) = counters r"
  by (simp add: CaseRepository_Create_def)

lemma counters_Update: "counters (snd (CaseRepository_Update r c)) = counters r"
  by (simp add: CaseRepository_Update_def)

lemma counters_UpdateStatus:
  "counters (snd (CaseService_UpdateStatus r caseID status now)) = counters r"
  by (simp add: CaseService_UpdateStatus_def CaseRepository_GetByID_def Let_def counters_Update
      split: option.splits)

lemma NextCaseNumber_calls_Cons:
  "NextCaseNumber_calls r (call # calls) =
     (fst (CaseRepository_NextCaseNumber r (fst call) (snd call)) #
        fst (NextCaseNumber_calls (snd (CaseRepository_NextCaseNumber r (fst call) (snd call))) calls),
      snd (NextCaseNumber_calls (snd (CaseRepository_NextCaseNumber r (fst call) (snd call))) calls))"
  by (simp add: split_def Let_def)

declare NextCaseNumber_calls.simps(2) [simp del]

lemma length_NextCaseNumber_calls: "length (fst (NextCaseNumber_calls r calls)) = length calls"
  by (induction calls arbitrary: r) (simp_all add: NextCaseNumber_calls_Cons)

lemma calls_for_le: "calls_for caseType calls \<le> length calls"
  by (simp add: calls_for_def)

lemma calls_for_Cons:
  "calls_for caseType (call # calls) = (if fst call = caseType then 1 else 0) + calls_for caseType calls"
  by (simp add: calls_for_def)

lemma increments_fit_mono: "increments_fit c n \<Longrightarrow> m \<le> n \<Longrightarrow> increments_fit c m"
  by (simp add: increments_fit_def)

lemma counter_after_first:
  assumes "increments_fit (counter r caseType) (Suc n)"
  shows "counter (snd (CaseRepository_NextCaseNumber r (fst call) (snd call))) caseType
           = counter r caseType + (if fst call = caseType then 1 else 0)"
proof (cases "fst call = caseType")
  case True
  then show ?thesis
    using counter_NextCaseNumber_fit [OF assms] by simp
next
  case False
  then show ?thesis
    by (simp add: counter_NextCaseNumber)
qed

lemma counter_after_calls:
  "increments_fit (counter r caseType) (length calls) \<Longrightarrow>
     counter (snd (NextCaseNumber_calls r calls)) caseType
       = counter r caseType + int (calls_for caseType calls)"
proof (induction calls arbitrary: r)
  case Nil
  show ?case by (simp add: calls_for_def)
next
  case (Cons call calls)
  let ?next = "snd (CaseRepository_NextCaseNumber r (fst call) (snd call))"
  have fit: "increments_fit (counter r caseType) (Suc (length calls))"
    using Cons.prems by simp
  have c: "counter ?next caseType = counter r caseType + (if fst call = caseType then 1 else 0)"
    using fit by (rule counter_after_first)
  have "increments_fit (counter ?next caseType) (length calls)"
    using fit unfolding c by (simp add: increments_fit_def)
  then have "counter (snd (NextCaseNumber_calls ?next calls)) caseType
       = counter ?next caseType + int (calls_for caseType calls)"
    by (rule Cons.IH)
  then show ?case
    unfolding c by (simp add: NextCaseNumber_calls_Cons calls_for_Cons)
qed

lemma number_of_call:
  "increments_fit (counter r caseType) (length calls) \<Longrightarrow> 0 \<le> counter r caseType \<Longrightarrow>
   i < length calls \<Longrightarrow> fst (calls ! i) = caseType \<Longrightarrow>
     sequence_number (fst (NextCaseNumber_calls r calls) ! i)
       = nat (counter r caseType) + calls_for caseType (take (Suc i) calls)"
proof (induction calls arbitrary: r i)
  case Nil
  then show ?case by simp
next
  case (Cons call calls)
  let ?next = "snd (CaseRepository_NextCaseNumber r (fst call) (snd call))"
  have fit: "increments_fit (counter r caseType) (Suc (length calls))"
    using Cons.prems(1) by simp
  have c: "counter ?next caseType = counter r caseType + (if fst call = caseType then 1 else 0)"
    using fit by (rule counter_after_first)
  show ?case
  proof (cases i)
    case 0
    then have t: "fst call = caseType" using Cons.prems(4) by simp
    have "sequence_number (fst (CaseRepository_NextCaseNumber r caseType (snd call)))
            = nat (counter r caseType + 1)"
      unfolding fst_NextCaseNumber
      using c t Cons.prems(2) by (simp add: sequence_number_Sprintf)
    then show ?thesis
      using 0 t Cons.prems(2) by (simp add: NextCaseNumber_calls_Cons calls_for_def nat_add_distrib)
  next
    case (Suc j)
    have "increments_fit (counter ?next caseType) (length calls)"
      using fit unfolding c by (simp add: increments_fit_def)
    moreover have "0 \<le> counter ?next caseType"
      using Cons.prems(2) unfolding c by simp
    moreover have "j < length calls" and "fst (calls ! j) = caseType"
      using Cons.prems(3,4) Suc by simp_all
    ultimately have "sequence_number (fst (NextCaseNumber_calls ?next calls) ! j)
       = nat (counter ?next caseType) + calls_for caseType (take (Suc j) calls)"
      by (rule Cons.IH)
    then show ?thesis
      using Suc Cons.prems(2) unfolding c
      by (simp add: NextCaseNumber_calls_Cons calls_for_Cons nat_add_distrib)
  qed
qed

lemma calls_for_take_less:
  assumes "i < j" and "j < length calls" and "fst (calls ! j) = caseType"
  shows "calls_for caseType (take (Suc i) calls) < calls_for caseType (take (Suc j) calls)"
proof -
  have "take (Suc j) calls = take (Suc i) calls @ drop (Suc i) (take j calls) @ [calls ! j]"
  proof -
    have "take (Suc j) calls = take j calls @ [calls ! j]"
      using assms(2) by (simp add: take_Suc_conv_app_nth)
    moreover have "take j calls = take (Suc i) (take j calls) @ drop (Suc i) (take j calls)"
      by (simp only: append_take_drop_id)
    moreover have "take (Suc i) (take j calls) = take (Suc i) calls"
      using assms(1) by (simp add: min_def)
    ultimately show ?thesis by (metis append_assoc)
  qed
  then show ?thesis
    using assms(3) by (simp add: calls_for_def)
qed

text \<open>
  C8. In a sequence of calls made one after the other, the sequence suffix of the string
  that a call for a case type returns is the counter of that type before the sequence plus
  the number of calls for the type made so far, so the suffixes of successive calls for
  one type increase strictly. A call moves the counter of its type by exactly one and no
  other counter, and the operations that store or update cases leave the counters alone.
  The counter is taken non-negative and far enough below the largest Go \<^verbatim>\<open>int\<close> for
  the calls made.
\<close>

theorem NextCaseNumber_suffixes_increase:
  assumes "0 \<le> counter r caseType"
      and "increments_fit (counter r caseType) (length calls)"
  shows "(\<forall>i j. i < j \<and> j < length calls \<and> fst (calls ! i) = caseType \<and> fst (calls ! j) = caseType \<longrightarrow>
           sequence_number (fst (NextCaseNumber_calls r calls) ! i)
             < sequence_number (fst (NextCaseNumber_calls r calls) ! j)) \<and>
         (\<forall>i. i < length calls \<and> fst (calls ! i) = caseType \<longrightarrow>
           sequence_number (fst (NextCaseNumber_calls r calls) ! i)
             = nat (counter r caseType) + calls_for caseType (take (Suc i) calls)) \<and>
         counter (snd (NextCaseNumber_calls r calls)) caseType
           = counter r caseType + int (calls_for caseType calls) \<and>
         (increments_fit (counter r caseType) 1 \<longrightarrow>
           counter (snd (CaseRepository_NextCaseNumber r caseType year)) caseType
             = counter r caseType + 1) \<and>
         (\<forall>other. other \<noteq> caseType \<longrightarrow>
            counter (snd (CaseRepository_NextCaseNumber r caseType year)) other = counter r other) \<and>
         counters (snd (CaseRepository_Create r c)) = counters r \<and>
         counters (snd (CaseRepository_Update r c)) = counters r \<and>
         counters (snd (CaseService_UpdateStatus r caseID status now)) = counters r"
proof -
  have increase: "sequence_number (fst (NextCaseNumber_calls r calls) ! i)
             < sequence_number (fst (NextCaseNumber_calls r calls) ! j)"
    if h: "i < j \<and> j < length calls \<and> fst (calls ! i) = caseType \<and> fst (calls ! j) = caseType"
    for i j
  proof -
    have "i < length calls" using h by simp
    then have "sequence_number (fst (NextCaseNumber_calls r calls) ! i)
       = nat (counter r caseType) + calls_for caseType (take (Suc i) calls)"
      using number_of_call [OF assms(2,1)] h by blast
    moreover have "sequence_number (fst (NextCaseNumber_calls r calls) ! j)
       = nat (counter r caseType) + calls_for caseType (take (Suc j) calls)"
      using number_of_call [OF assms(2,1)] h by blast
    moreover have "calls_for caseType (take (Suc i) calls) < calls_for caseType (take (Suc j) calls)"
      using h by (intro calls_for_take_less) simp_all
    ultimately show ?thesis by simp
  qed
  have exact: "\<forall>i. i < length calls \<and> fst (calls ! i) = caseType \<longrightarrow>
           sequence_number (fst (NextCaseNumber_calls r calls) ! i)
             = nat (counter r caseType) + calls_for caseType (take (Suc i) calls)"
    using number_of_call [OF assms(2,1)] by simp
  have total: "counter (snd (NextCaseNumber_calls r calls)) caseType
           = counter r caseType + int (calls_for caseType calls)"
    using assms(2) by (rule counter_after_calls)
  have one: "increments_fit (counter r caseType) 1 \<longrightarrow>
           counter (snd (CaseRepository_NextCaseNumber r caseType year)) caseType
             = counter r caseType + 1"
    using counter_NextCaseNumber_fit [of r caseType 0 year] by simp
  have others: "\<forall>other. other \<noteq> caseType \<longrightarrow>
            counter (snd (CaseRepository_NextCaseNumber r caseType year)) other = counter r other"
    by (simp add: counter_NextCaseNumber)
  have kept: "counters (snd (CaseRepository_Create r c)) = counters r \<and>
         counters (snd (CaseRepository_Update r c)) = counters r \<and>
         counters (snd (CaseService_UpdateStatus r caseID status now)) = counters r"
    by (simp add: counters_Create counters_Update counters_UpdateStatus)
  from increase exact total one others kept show ?thesis
    by blast
qed

theorem NextCaseNumber_suffixes_increase_witness:
  "0 \<le> counter \<lparr>cases = Map.empty, counters = seeded_counters\<rparr> ''AO'' \<and>
   increments_fit (counter \<lparr>cases = Map.empty, counters = seeded_counters\<rparr> ''AO'') 3 \<and>
   fst (NextCaseNumber_calls \<lparr>cases = Map.empty, counters = seeded_counters\<rparr>
          [(''AO'', 2024), (''EC'', 2024), (''AO'', 2025)])
     = [''AO-2024-043'', ''EC-2024-019'', ''AO-2025-044''] \<and>
   sequence_number (fst (NextCaseNumber_calls \<lparr>cases = Map.empty, counters = seeded_counters\<rparr>
          [(''AO'', 2024), (''EC'', 2024), (''AO'', 2025)]) ! 0)
     < sequence_number (fst (NextCaseNumber_calls \<lparr>cases = Map.empty, counters = seeded_counters\<rparr>
          [(''AO'', 2024), (''EC'', 2024), (''AO'', 2025)]) ! 2)"
proof -
  let ?seed = "\<lparr>cases = Map.empty, counters = seeded_counters\<rparr>"
  let ?calls = "[(''AO'', 2024::int), (''EC'', 2024), (''AO'', 2025)]"
  have c: "counter ?seed ''AO'' = 42"
    by (simp add: counter_def seeded_counters_def CaseTypeAdvisoryOpinion_def
        CaseTypeEthicsComplaint_def CaseTypeEthicsAcknowledgment_def CaseTypePublicRecordsRequest_def)
  have h1: "0 \<le> counter ?seed ''AO''"
    by (simp add: c)
  have h2: "increments_fit (counter ?seed ''AO'') (length ?calls)"
    by (simp add: c increments_fit_def)
  have "\<forall>i j. i < j \<and> j < length ?calls \<and> fst (?calls ! i) = ''AO'' \<and> fst (?calls ! j) = ''AO'' \<longrightarrow>
           sequence_number (fst (NextCaseNumber_calls ?seed ?calls) ! i)
             < sequence_number (fst (NextCaseNumber_calls ?seed ?calls) ! j)"
    using NextCaseNumber_suffixes_increase [OF h1 h2] by (rule conjunct1)
  then have "0 < (2::nat) \<and> 2 < length ?calls \<and> fst (?calls ! 0) = ''AO'' \<and> fst (?calls ! 2) = ''AO'' \<longrightarrow>
           sequence_number (fst (NextCaseNumber_calls ?seed ?calls) ! 0)
             < sequence_number (fst (NextCaseNumber_calls ?seed ?calls) ! 2)"
    by blast
  then have less: "sequence_number (fst (NextCaseNumber_calls ?seed ?calls) ! 0)
             < sequence_number (fst (NextCaseNumber_calls ?seed ?calls) ! 2)"
    by simp
  have "fst (NextCaseNumber_calls ?seed ?calls) = [''AO-2024-043'', ''EC-2024-019'', ''AO-2025-044'']"
    by code_simp
  moreover have "increments_fit (counter ?seed ''AO'') 3"
    by (simp add: c increments_fit_def)
  ultimately show ?thesis
    using h1 less by blast
qed

section \<open>Storing and creating cases\<close>

text \<open>
  C4 (as amended). The repository's \<open>Create\<close> stores the record under its ID and returns
  no error in every case: a record already stored under that ID is replaced by the new
  one. Every other entry and the counters stay as they were.
\<close>

theorem CaseRepository_Create_stores_or_replaces:
  "fst (CaseRepository_Create r c) = None \<and>
   CaseRepository_GetByID (snd (CaseRepository_Create r c)) (ID c) = Some c \<and>
   (\<forall>k. k \<noteq> ID c \<longrightarrow>
      CaseRepository_GetByID (snd (CaseRepository_Create r c)) k = CaseRepository_GetByID r k) \<and>
   counters (snd (CaseRepository_Create r c)) = counters r"
  by (simp add: CaseRepository_Create_def CaseRepository_GetByID_def)

theorem CaseRepository_Create_stores_or_replaces_witness:
  "fst (CaseRepository_Create seeded_empty_repository (Case_zero\<lparr>ID := ''1''\<rparr>)) = None \<and>
   CaseRepository_GetByID
     (snd (CaseRepository_Create seeded_empty_repository (Case_zero\<lparr>ID := ''1''\<rparr>))) ''1''
     = Some (Case_zero\<lparr>ID := ''1''\<rparr>) \<and>
   CaseRepository_GetByID
     (snd (CaseRepository_Create seeded_empty_repository (Case_zero\<lparr>ID := ''1''\<rparr>))) ''2''
     = None"
  using CaseRepository_Create_stores_or_replaces
          [of seeded_empty_repository "Case_zero\<lparr>ID := ''1''\<rparr>"]
  by (simp add: seeded_empty_repository_def CaseRepository_GetByID_def)

text \<open>
  The claim as stated fails: with a record stored under the ID 1, creating another
  record with the ID 1 returns no error and replaces the stored one.
\<close>

theorem CaseRepository_Create_duplicate_counterexample:
  "CaseRepository_GetByID
     (snd (CaseRepository_Create seeded_empty_repository (Case_zero\<lparr>ID := ''1''\<rparr>))) ''1''
     = Some (Case_zero\<lparr>ID := ''1''\<rparr>) \<and>
   fst (CaseRepository_Create
          (snd (CaseRepository_Create seeded_empty_repository (Case_zero\<lparr>ID := ''1''\<rparr>)))
          (Case_zero\<lparr>ID := ''1'', Summary := ''another case''\<rparr>)) = None \<and>
   CaseRepository_GetByID
     (snd (CaseRepository_Create
          (snd (CaseRepository_Create seeded_empty_repository (Case_zero\<lparr>ID := ''1''\<rparr>)))
          (Case_zero\<lparr>ID := ''1'', Summary := ''another case''\<rparr>))) ''1''
     = Some (Case_zero\<lparr>ID := ''1'', Summary := ''another case''\<rparr>) \<and>
   Case_zero\<lparr>ID := ''1'', Summary := ''another case''\<rparr> \<noteq> Case_zero\<lparr>ID := ''1''\<rparr>"
  by (simp add: CaseRepository_Create_def CaseRepository_GetByID_def Case_zero_def)

lemma CaseService_Create_result:
  "CaseService_Create r c year now\<^sub>1 now\<^sub>2 now\<^sub>3 =
     (let created = c\<lparr>CaseNumber := fst (CaseRepository_NextCaseNumber r (Type c) year),
                      ID := ''case_'' @ fmt_d (UnixNano now\<^sub>1),
                      CreatedAt := now\<^sub>2, UpdatedAt := now\<^sub>3,
                      DueDate := (if Type c = CaseTypeAdvisoryOpinion
                                    then calculateBusinessDays (SubmittedAt c) 45
                                  else if Type c = CaseTypePublicRecordsRequest
                                    then calculateBusinessDays (SubmittedAt c) 5
                                  else DueDate c)\<rparr>
      in (Inr (CaseNumber created), created,
          \<lparr>cases = (cases r)(ID created \<mapsto> created),
           counters = counters (snd (CaseRepository_NextCaseNumber r (Type c) year))\<rparr>))"
  by (simp add: CaseService_Create_def CaseRepository_Create_def CaseRepository_NextCaseNumber_def
      Let_def)

text \<open>
  C3 (as amended). \<open>CaseService.Create\<close> never assigns \<open>Status\<close>: the stored record has the
  status the caller passed in (the submission handlers pass \<open>submitted\<close>). \<open>Create(c)\<close>
  followed by \<open>GetByID(c.ID)\<close> returns the caller's record with only \<open>CaseNumber\<close>, \<open>ID\<close>,
  \<open>CreatedAt\<close>, \<open>UpdatedAt\<close> and, for advisory opinions and public records requests,
  \<open>DueDate\<close> assigned by the service; the call returns the case number and no error.
\<close>

theorem CaseService_Create_round_trip:
  "(let created = c\<lparr>CaseNumber := fst (CaseRepository_NextCaseNumber r (Type c) year),
                      ID := ''case_'' @ fmt_d (UnixNano nowID),
                      CreatedAt := nowCreated, UpdatedAt := nowUpdated,
                      DueDate := (if Type c = CaseTypeAdvisoryOpinion
                                    then calculateBusinessDays (SubmittedAt c) 45
                                  else if Type c = CaseTypePublicRecordsRequest
                                    then calculateBusinessDays (SubmittedAt c) 5
                                  else DueDate c)\<rparr>;
        result = CaseService_Create r c year nowID nowCreated nowUpdated
    in fst result = Inr (CaseNumber created) \<and>
       fst (snd result) = created \<and>
       CaseRepository_GetByID (snd (snd result)) (ID created) = Some created \<and>
       Status created = Status c)"
  by (simp add: CaseService_Create_result Let_def CaseRepository_GetByID_def)

theorem CaseService_Create_round_trip_witness:
  "fst (CaseService_Create seeded_empty_repository (advisory_opinion_submission noon_2024_06_03)
          2024 noon_2024_06_03 noon_2024_06_03 noon_2024_06_03) = Inr ''AO-2024-043'' \<and>
   CaseRepository_GetByID
     (snd (snd (CaseService_Create seeded_empty_repository (advisory_opinion_submission noon_2024_06_03)
          2024 noon_2024_06_03 noon_2024_06_03 noon_2024_06_03)))
     ''case_1717416000000000000''
     = Some (fst (snd (CaseService_Create seeded_empty_repository
          (advisory_opinion_submission noon_2024_06_03)
          2024 noon_2024_06_03 noon_2024_06_03 noon_2024_06_03))) \<and>
   Status (fst (snd (CaseService_Create seeded_empty_repository
          (advisory_opinion_submission noon_2024_06_03)
          2024 noon_2024_06_03 noon_2024_06_03 noon_2024_06_03))) = StatusSubmitted \<and>
   SubmitterName (fst (snd (CaseService_Create seeded_empty_repository
          (advisory_opinion_submission noon_2024_06_03)
          2024 noon_2024_06_03 noon_2024_06_03 noon_2024_06_03))) = ''John Test''"
proof -
  let ?c = "advisory_opinion_submission noon_2024_06_03"
  let ?res = "CaseService_Create seeded_empty_repository ?c 2024 noon_2024_06_03 noon_2024_06_03
     noon_2024_06_03"
  define created where "created =
     ?c\<lparr>CaseNumber := fst (CaseRepository_NextCaseNumber seeded_empty_repository (Type ?c) 2024),
        ID := ''case_'' @ fmt_d (UnixNano noon_2024_06_03),
        CreatedAt := noon_2024_06_03, UpdatedAt := noon_2024_06_03,
        DueDate := (if Type ?c = CaseTypeAdvisoryOpinion
                      then calculateBusinessDays (SubmittedAt ?c) 45
                    else if Type ?c = CaseTypePublicRecordsRequest
                      then calculateBusinessDays (SubmittedAt ?c) 5
                    else DueDate ?c)\<rparr>"
  have th: "fst ?res = Inr (CaseNumber created) \<and> fst (snd ?res) = created \<and>
      CaseRepository_GetByID (snd (snd ?res)) (ID created) = Some created \<and>
      Status created = Status ?c"
    using CaseService_Create_round_trip [where c = ?c
        and r = seeded_empty_repository and year = 2024 and nowID = noon_2024_06_03
        and nowCreated = noon_2024_06_03 and nowUpdated = noon_2024_06_03]
    unfolding created_def Let_def .
  have n: "fst (CaseRepository_NextCaseNumber seeded_empty_repository ''AO'' 2024) = ''AO-2024-043''"
    by (simp add: CaseRepository_NextCaseNumber_def seeded_empty_repository_def counter_def
        seeded_counters_def Sprintf_case_number_def fmt_d_def fmt_03d_def zero_pad_def digits.simps
        digit_def wrap_int_def CaseTypeAdvisoryOpinion_def CaseTypeEthicsComplaint_def
        CaseTypeEthicsAcknowledgment_def CaseTypePublicRecordsRequest_def Let_def)
  have i: "fmt_d (UnixNano noon_2024_06_03) = ''1717416000000000000''"
    by (simp add: UnixNano_def noon_2024_06_03_def nsPerDay_def nsPerHour_def fmt_d_def
        digits.simps digit_def)
  have t: "Type ?c = ''AO''"
    by (simp add: advisory_opinion_submission_def CaseTypeAdvisoryOpinion_def)
  have 1: "CaseNumber created = ''AO-2024-043''"
    by (simp add: created_def t n)
  have 2: "ID created = ''case_1717416000000000000''"
    by (simp add: created_def i)
  have 3: "Status ?c = StatusSubmitted"
    by (simp add: advisory_opinion_submission_def)
  have 4: "SubmitterName created = ''John Test''"
    by (simp add: created_def advisory_opinion_submission_def)
  from th have "fst ?res = Inr ''AO-2024-043''"
      and "CaseRepository_GetByID (snd (snd ?res)) ''case_1717416000000000000'' = Some (fst (snd ?res))"
      and "Status (fst (snd ?res)) = StatusSubmitted"
      and "SubmitterName (fst (snd ?res)) = ''John Test''"
    using 1 2 3 4 by simp_all
  then show ?thesis by simp
qed

text \<open>
  The claim as stated fails: a record passed in with the status \<open>closed\<close> is stored, and
  read back, with the status \<open>closed\<close>.
\<close>

theorem CaseService_Create_status_counterexample:
  "CaseRepository_GetByID
     (snd (snd (CaseService_Create seeded_empty_repository
          ((advisory_opinion_submission noon_2024_06_03)\<lparr>Status := StatusClosed\<rparr>)
          2024 noon_2024_06_03 noon_2024_06_03 noon_2024_06_03)))
     (ID (fst (snd (CaseService_Create seeded_empty_repository
          ((advisory_opinion_submission noon_2024_06_03)\<lparr>Status := StatusClosed\<rparr>)
          2024 noon_2024_06_03 noon_2024_06_03 noon_2024_06_03))))
     = Some (fst (snd (CaseService_Create seeded_empty_repository
          ((advisory_opinion_submission noon_2024_06_03)\<lparr>Status := StatusClosed\<rparr>)
          2024 noon_2024_06_03 noon_2024_06_03 noon_2024_06_03))) \<and>
   Status (fst (snd (CaseService_Create seeded_empty_repository
          ((advisory_opinion_submission noon_2024_06_03)\<lparr>Status := StatusClosed\<rparr>)
          2024 noon_2024_06_03 noon_2024_06_03 noon_2024_06_03))) = ''closed'' \<and>
   ''closed'' \<noteq> StatusSubmitted"
  by (simp add: CaseService_Create_result Let_def CaseRepository_GetByID_def StatusClosed_def
      StatusSubmitted_def)

section \<open>Updating the status\<close>

lemma cases_one_case_repository: "cases (one_case_repository c) = [ID c \<mapsto> c]"
  by (simp add: one_case_repository_def CaseRepository_Create_def seeded_empty_repository_def)

text \<open>
  C6 (as amended). \<open>UpdateStatus\<close> returns the not-found error and leaves the repository
  unchanged when no case is stored under \<open>caseID\<close>. Otherwise, for a case stored under
  its own ID, it returns no error whatever the status value is, and afterwards \<open>GetByID\<close>
  returns the case with the new status and with \<open>UpdatedAt\<close> set to the clock reading of
  the call; the stamp is later than the one before exactly when that clock reading is.
  The other cases and the counters are unchanged.
\<close>

theorem CaseService_UpdateStatus_effect:
  "(CaseRepository_GetByID r caseID = None \<longrightarrow>
      CaseService_UpdateStatus r caseID status now = (Some (CaseNotFound caseID), r)) \<and>
   (\<forall>c. CaseRepository_GetByID r caseID = Some c \<and> ID c = caseID \<longrightarrow>
      fst (CaseService_UpdateStatus r caseID status now) = None \<and>
      CaseRepository_GetByID (snd (CaseService_UpdateStatus r caseID status now)) caseID
        = Some (c\<lparr>Status := status, UpdatedAt := now\<rparr>) \<and>
      (\<forall>k. k \<noteq> caseID \<longrightarrow>
         CaseRepository_GetByID (snd (CaseService_UpdateStatus r caseID status now)) k
           = CaseRepository_GetByID r k) \<and>
      counters (snd (CaseService_UpdateStatus r caseID status now)) = counters r \<and>
      After (UpdatedAt (c\<lparr>Status := status, UpdatedAt := now\<rparr>)) (UpdatedAt c)
        = After now (UpdatedAt c))"
  by (simp add: CaseService_UpdateStatus_def CaseRepository_GetByID_def CaseRepository_Update_def
      Let_def)

theorem CaseService_UpdateStatus_effect_witness:
  "CaseService_UpdateStatus (one_case_repository (Case_zero\<lparr>ID := ''1''\<rparr>)) ''2''
       StatusUnderReview noon_2024_06_03
     = (Some (CaseNotFound ''2''), one_case_repository (Case_zero\<lparr>ID := ''1''\<rparr>)) \<and>
   fst (CaseService_UpdateStatus (one_case_repository (Case_zero\<lparr>ID := ''1''\<rparr>)) ''1''
       StatusUnderReview noon_2024_06_03) = None \<and>
   CaseRepository_GetByID
       (snd (CaseService_UpdateStatus (one_case_repository (Case_zero\<lparr>ID := ''1''\<rparr>)) ''1''
         StatusUnderReview noon_2024_06_03)) ''1''
     = Some (Case_zero\<lparr>ID := ''1'', Status := StatusUnderReview, UpdatedAt := noon_2024_06_03\<rparr>) \<and>
   After noon_2024_06_03 (UpdatedAt (Case_zero\<lparr>ID := ''1''\<rparr>))"
proof -
  let ?r = "one_case_repository (Case_zero\<lparr>ID := ''1''\<rparr>)"
  have g1: "CaseRepository_GetByID ?r ''1'' = Some (Case_zero\<lparr>ID := ''1''\<rparr>)"
    by (simp add: CaseRepository_GetByID_def cases_one_case_repository)
  have g2: "CaseRepository_GetByID ?r ''2'' = None"
    by (simp add: CaseRepository_GetByID_def cases_one_case_repository)
  have a: "After noon_2024_06_03 (UpdatedAt (Case_zero\<lparr>ID := ''1''\<rparr>))"
    by (simp add: After_def Case_zero_def noon_2024_06_03_def nsPerDay_def nsPerHour_def)
  have "CaseService_UpdateStatus ?r ''2'' StatusUnderReview noon_2024_06_03
          = (Some (CaseNotFound ''2''), ?r)"
    using CaseService_UpdateStatus_effect [of ?r "''2''" StatusUnderReview noon_2024_06_03] g2
    by blast
  moreover have "fst (CaseService_UpdateStatus ?r ''1'' StatusUnderReview noon_2024_06_03) = None \<and>
      CaseRepository_GetByID (snd (CaseService_UpdateStatus ?r ''1'' StatusUnderReview noon_2024_06_03)) ''1''
        = Some (Case_zero\<lparr>ID := ''1'', Status := StatusUnderReview, UpdatedAt := noon_2024_06_03\<rparr>)"
    using CaseService_UpdateStatus_effect [of ?r "''1''" StatusUnderReview noon_2024_06_03] g1
    by simp
  ultimately show ?thesis using a by blast
qed

text \<open>
  The claim as stated fails: two status updates made at the same clock reading leave
  \<open>UpdatedAt\<close> where the first one put it, not strictly later.
\<close>

theorem CaseService_UpdateStatus_clock_counterexample:
  "fst (CaseService_UpdateStatus
          (snd (CaseService_UpdateStatus (one_case_repository (Case_zero\<lparr>ID := ''1''\<rparr>)) ''1''
             StatusUnderReview noon_2024_06_03))
          ''1'' StatusInvestigation noon_2024_06_03) = None \<and>
   \<not> After
       (UpdatedAt (the (CaseRepository_GetByID
          (snd (CaseService_UpdateStatus
             (snd (CaseService_UpdateStatus (one_case_repository (Case_zero\<lparr>ID := ''1''\<rparr>)) ''1''
                StatusUnderReview noon_2024_06_03))
             ''1'' StatusInvestigation noon_2024_06_03)) ''1'')))
       (UpdatedAt (the (CaseRepository_GetByID
          (snd (CaseService_UpdateStatus (one_case_repository (Case_zero\<lparr>ID := ''1''\<rparr>)) ''1''
             StatusUnderReview noon_2024_06_03)) ''1'')))"
  by (simp add: CaseService_UpdateStatus_def CaseRepository_GetByID_def CaseRepository_Update_def
      Let_def cases_one_case_repository After_def)

section \<open>Listing, overdue cases and deadlines\<close>

lemma set_range_cases:
  "set (range_cases r order) = {c. \<exists>k\<in>set order. cases r k = Some c}"
  by (induction order) (auto simp: range_cases_def split: option.splits)

lemma range_cases_stored:
  "set order \<subseteq> dom (cases r) \<Longrightarrow> range_cases r order = stored_cases r order"
proof (induction order)
  case Nil
  show ?case by (simp add: range_cases_def stored_cases_def)
next
  case (Cons k order)
  then obtain c where "cases r k = Some c" by auto
  moreover have "range_cases r order = stored_cases r order" using Cons by simp
  ultimately show ?case
    by (simp add: range_cases_def stored_cases_def)
qed

lemma Contains_iff: "Contains s sub = is_substring sub s"
proof (induction s)
  case Nil
  show ?case by (auto simp: is_substring_def)
next
  case (Cons x xs)
  have "is_substring sub (x # xs) = (take (length sub) (x # xs) = sub \<or> is_substring sub xs)"
  proof
    assume "is_substring sub (x # xs)"
    then obtain before after where e: "x # xs = before @ sub @ after"
      by (auto simp: is_substring_def)
    show "take (length sub) (x # xs) = sub \<or> is_substring sub xs"
    proof (cases before)
      case Nil
      then have "take (length sub) (x # xs) = sub" using e by simp
      then show ?thesis by simp
    next
      case (Cons b bs)
      then have "xs = bs @ sub @ after" using e by simp
      then show ?thesis by (auto simp: is_substring_def)
    qed
  next
    assume "take (length sub) (x # xs) = sub \<or> is_substring sub xs"
    then show "is_substring sub (x # xs)"
    proof
      assume "take (length sub) (x # xs) = sub"
      then have "x # xs = [] @ sub @ drop (length sub) (x # xs)"
        by (metis append_Nil append_take_drop_id)
      then show ?thesis unfolding is_substring_def by blast
    next
      assume "is_substring sub xs"
      then obtain before after where "xs = before @ sub @ after"
        by (auto simp: is_substring_def)
      then have "x # xs = (x # before) @ sub @ after" by simp
      then show ?thesis unfolding is_substring_def by blast
    qed
  qed
  then show ?case using Cons by simp
qed

lemma List_loop_filter:
  "List_loop ToLower typeFilter statusFilter query cs result
     = result @ filter (matches_filters ToLower typeFilter statusFilter query) cs"
  by (induction cs arbitrary: result) (auto simp: matches_filters_def Contains_iff)

lemma List_all: "CaseRepository_List ToLower r order [] [] [] = range_cases r order"
  by (simp add: CaseRepository_List_def List_loop_filter matches_filters_def)

text \<open>
  C7. For an iteration order of the stored cases, \<open>List\<close> returns exactly the stored cases
  that match the three filters, each once, in iteration order: an empty filter matches
  every case, the type and status filters compare by equality, and a non-empty query
  matches when the lower-cased query is a substring of the lower-cased concatenation of
  case number, summary and submitter name. Iterating in the reverse order gives the
  reverse result, so the order of the result is that of the iteration and nothing more.
\<close>

theorem CaseRepository_List_exact:
  assumes "iteration_order r order"
  shows "CaseRepository_List ToLower r order typeFilter statusFilter query
           = filter (matches_filters ToLower typeFilter statusFilter query) (stored_cases r order) \<and>
         set (CaseRepository_List ToLower r order typeFilter statusFilter query)
           = {c \<in> ran (cases r). matches_filters ToLower typeFilter statusFilter query c} \<and>
         (\<forall>c \<in> set (CaseRepository_List ToLower r order ''AO'' [] []). Type c = ''AO'') \<and>
         CaseRepository_List ToLower r (rev order) typeFilter statusFilter query
           = rev (CaseRepository_List ToLower r order typeFilter statusFilter query)"
proof -
  have sub: "set order \<subseteq> dom (cases r)" and sub': "set (rev order) \<subseteq> dom (cases r)"
    using assms by (simp_all add: iteration_order_def)
  have eq: "CaseRepository_List ToLower r order typeFilter statusFilter query
           = filter (matches_filters ToLower typeFilter statusFilter query) (stored_cases r order)"
    by (simp add: CaseRepository_List_def List_loop_filter range_cases_stored [OF sub])
  have "set (stored_cases r order) = ran (cases r)"
    using assms unfolding stored_cases_def iteration_order_def ran_def by force
  then have s: "set (CaseRepository_List ToLower r order typeFilter statusFilter query)
           = {c \<in> ran (cases r). matches_filters ToLower typeFilter statusFilter query c}"
    unfolding eq by auto
  have t: "\<forall>c \<in> set (CaseRepository_List ToLower r order ''AO'' [] []). Type c = ''AO''"
    by (simp add: CaseRepository_List_def List_loop_filter matches_filters_def)
  have "CaseRepository_List ToLower r (rev order) typeFilter statusFilter query
           = rev (CaseRepository_List ToLower r order typeFilter statusFilter query)"
    by (simp add: CaseRepository_List_def List_loop_filter range_cases_stored [OF sub]
        range_cases_stored [OF sub'] stored_cases_def rev_map rev_filter)
  with eq s t show ?thesis by blast
qed


lemma matches_filters_Contains:
  "matches_filters ToLower typeFilter statusFilter query c =
     ((typeFilter = [] \<or> Type c = typeFilter) \<and>
      (statusFilter = [] \<or> Status c = statusFilter) \<and>
      (query = [] \<or>
       Contains (ToLower (CaseNumber c @ Summary c @ SubmitterName c)) (ToLower query)))"
  by (simp add: matches_filters_def Contains_iff)

theorem CaseRepository_List_exact_witness:
  "iteration_order
     (seedDemoData_cases
        [Case_zero\<lparr>ID := ''1'', Type := ''AO'', SubmitterName := ''Maria Garcia''\<rparr>,
         Case_zero\<lparr>ID := ''2'', Type := ''EC'', SubmitterName := ''Jane Doe''\<rparr>]
        seeded_empty_repository)
     [''2'', ''1''] \<and>
   CaseRepository_List ascii_ToLower
     (seedDemoData_cases
        [Case_zero\<lparr>ID := ''1'', Type := ''AO'', SubmitterName := ''Maria Garcia''\<rparr>,
         Case_zero\<lparr>ID := ''2'', Type := ''EC'', SubmitterName := ''Jane Doe''\<rparr>]
        seeded_empty_repository)
     [''2'', ''1''] [] [] ''GARCIA''
     = [Case_zero\<lparr>ID := ''1'', Type := ''AO'', SubmitterName := ''Maria Garcia''\<rparr>]"
proof -
  let ?a = "Case_zero\<lparr>ID := ''1'', Type := ''AO'', SubmitterName := ''Maria Garcia''\<rparr>"
  let ?b = "Case_zero\<lparr>ID := ''2'', Type := ''EC'', SubmitterName := ''Jane Doe''\<rparr>"
  let ?store = "seedDemoData_cases [?a, ?b] seeded_empty_repository"
  have c: "cases ?store = [''1'' \<mapsto> ?a, ''2'' \<mapsto> ?b]"
    by (simp add: seeded_empty_repository_def)
  have o: "iteration_order ?store [''2'', ''1'']"
    unfolding iteration_order_def c by auto
  have s: "stored_cases ?store [''2'', ''1''] = [?b, ?a]"
    unfolding stored_cases_def c by simp
  have l: "ascii_ToLower ''GARCIA'' = ''garcia''"
    by (simp add: ascii_ToLower_def)
  have la: "ascii_ToLower (CaseNumber ?a @ Summary ?a @ SubmitterName ?a) = ''maria garcia''"
    by (simp add: ascii_ToLower_def Case_zero_def)
  have lb: "ascii_ToLower (CaseNumber ?b @ Summary ?b @ SubmitterName ?b) = ''jane doe''"
    by (simp add: ascii_ToLower_def Case_zero_def)
  have ma: "matches_filters ascii_ToLower [] [] ''GARCIA'' ?a"
    unfolding matches_filters_Contains l la by simp
  have mb: "\<not> matches_filters ascii_ToLower [] [] ''GARCIA'' ?b"
    unfolding matches_filters_Contains l lb by simp
  have "CaseRepository_List ascii_ToLower ?store [''2'', ''1''] [] [] ''GARCIA''
          = filter (matches_filters ascii_ToLower [] [] ''GARCIA'') (stored_cases ?store [''2'', ''1''])"
    using CaseRepository_List_exact [OF o] by blast
  then have "CaseRepository_List ascii_ToLower ?store [''2'', ''1''] [] [] ''GARCIA'' = [?a]"
    unfolding s using ma mb by simp
  with o show ?thesis by blast
qed

lemma overdue_count_Nil: "overdue_count clock i [] = 0"
  by (simp add: overdue_count_def)

lemma overdue_count_Cons:
  "overdue_count clock i (c # cs) =
     (if Case_IsOverdue c (clock i) then 1 else 0) + overdue_count clock (Suc i) cs"
proof -
  have "[0..<length (c # cs)] = 0 # map Suc [0..<length cs]"
    by (simp add: upt_conv_Cons map_Suc_upt del: upt_Suc)
  then show ?thesis
    by (simp add: overdue_count_def filter_map comp_def del: upt_Suc)
qed

lemma GetStats_loop_TotalOverdue:
  "TotalOverdue (GetStats_loop clock i cs s) = TotalOverdue s + int (overdue_count clock i cs)"
proof (induction cs arbitrary: i s)
  case Nil
  show ?case by (simp add: overdue_count_Nil)
next
  case (Cons c cs)
  show ?case
    by (simp add: Cons.IH overdue_count_Cons Let_def)
qed

lemma GetStats_TotalOverdue:
  "TotalOverdue (DashboardService_GetStats ToLower r order clock)
     = int (overdue_count clock 0 (range_cases r order))"
  by (simp add: DashboardService_GetStats_def Let_def List_all GetStats_loop_TotalOverdue)

text \<open>
  C5 (as amended). \<open>IsOverdue\<close> holds exactly for a case whose due date is set (not the
  zero time) and in the past and whose status is neither \<open>closed\<close> nor \<open>published\<close>, and
  the overdue total of \<open>GetStats\<close> is the number of stored cases for which it holds at the
  clock reading taken for the case. So a case with status \<open>closed\<close> is never counted,
  whatever its due date, and neither is one with status \<open>published\<close> or without due date.
\<close>

theorem overdue_classification:
  "Case_IsOverdue c now
     = (\<not> IsZero (DueDate c) \<and> After now (DueDate c) \<and>
        Status c \<noteq> StatusClosed \<and> Status c \<noteq> StatusPublished) \<and>
   TotalOverdue (DashboardService_GetStats ToLower r order clock)
     = int (length (filter (\<lambda>i. Case_IsOverdue (range_cases r order ! i) (clock i))
                      [0..<length (range_cases r order)]))"
  using GetStats_TotalOverdue [of ToLower r order clock]
  by (simp add: Case_IsOverdue_def overdue_count_def)

theorem overdue_classification_witness:
  "Case_IsOverdue (Case_zero\<lparr>ID := ''6'', Status := StatusUnderReview, DueDate := noon_2024_06_03\<rparr>)
     (noon_2024_06_03 + 1) \<and>
   \<not> Case_IsOverdue (Case_zero\<lparr>ID := ''9'', Status := StatusClosed, DueDate := noon_2024_06_03\<rparr>)
     (noon_2024_06_03 + 1) \<and>
   TotalOverdue (DashboardService_GetStats ascii_ToLower
      (seedDemoData_cases
         [Case_zero\<lparr>ID := ''6'', Status := StatusUnderReview, DueDate := noon_2024_06_03\<rparr>,
          Case_zero\<lparr>ID := ''9'', Status := StatusClosed, DueDate := noon_2024_06_03\<rparr>]
         seeded_empty_repository)
      [''9'', ''6''] (\<lambda>i. noon_2024_06_03 + 1)) = 1"
proof -
  let ?a = "Case_zero\<lparr>ID := ''6'', Status := StatusUnderReview, DueDate := noon_2024_06_03\<rparr>"
  let ?b = "Case_zero\<lparr>ID := ''9'', Status := StatusClosed, DueDate := noon_2024_06_03\<rparr>"
  let ?store = "seedDemoData_cases [?a, ?b] seeded_empty_repository"
  have z: "\<not> IsZero noon_2024_06_03"
    by (simp add: IsZero_def noon_2024_06_03_def nsPerDay_def nsPerHour_def)
  have a: "Case_IsOverdue ?a (noon_2024_06_03 + 1)"
    using overdue_classification [of ?a "noon_2024_06_03 + 1"] z
    by (simp add: After_def StatusUnderReview_def StatusClosed_def StatusPublished_def)
  have b: "\<not> Case_IsOverdue ?b (noon_2024_06_03 + 1)"
    using overdue_classification [of ?b "noon_2024_06_03 + 1"]
    by simp
  have c: "range_cases ?store [''9'', ''6''] = [?b, ?a]"
    by (simp add: range_cases_def seeded_empty_repository_def)
  have "TotalOverdue (DashboardService_GetStats ascii_ToLower ?store [''9'', ''6'']
          (\<lambda>i. noon_2024_06_03 + 1))
     = int (length (filter (\<lambda>i. Case_IsOverdue (range_cases ?store [''9'', ''6''] ! i)
                              (noon_2024_06_03 + 1))
                      [0..<length (range_cases ?store [''9'', ''6''])]))"
    by (rule overdue_classification [THEN conjunct2])
  also have "\<dots> = int (length (filter (\<lambda>i. Case_IsOverdue ([?b, ?a] ! i) (noon_2024_06_03 + 1))
                      [0, 1]))"
    unfolding c by (simp add: upt_rec)
  also have "\<dots> = 1"
    using a b by simp
  finally show ?thesis using a b by blast
qed

text \<open>
  The claim as stated fails: a case with status \<open>published\<close> whose due date has passed is
  not overdue for \<open>IsOverdue\<close> and is not counted by \<open>GetStats\<close>, so \<open>closed\<close> is not the only
  exempt status.
\<close>

theorem overdue_published_counterexample:
  "After (noon_2024_06_03 + 1) (DueDate (Case_zero\<lparr>ID := ''5'', Status := StatusPublished,
      DueDate := noon_2024_06_03\<rparr>)) \<and>
   Status (Case_zero\<lparr>ID := ''5'', Status := StatusPublished, DueDate := noon_2024_06_03\<rparr>)
     \<noteq> StatusClosed \<and>
   \<not> Case_IsOverdue (Case_zero\<lparr>ID := ''5'', Status := StatusPublished,
      DueDate := noon_2024_06_03\<rparr>) (noon_2024_06_03 + 1) \<and>
   TotalOverdue (DashboardService_GetStats ascii_ToLower
      (one_case_repository (Case_zero\<lparr>ID := ''5'', Status := StatusPublished,
         DueDate := noon_2024_06_03\<rparr>))
      [''5''] (\<lambda>i. noon_2024_06_03 + 1)) = 0"
proof -
  let ?p = "Case_zero\<lparr>ID := ''5'', Status := StatusPublished, DueDate := noon_2024_06_03\<rparr>"
  have n: "\<not> Case_IsOverdue ?p (noon_2024_06_03 + 1)"
    by (simp add: Case_IsOverdue_def)
  have "range_cases (one_case_repository ?p) [''5''] = [?p]"
    by (simp add: range_cases_def cases_one_case_repository)
  then have "TotalOverdue (DashboardService_GetStats ascii_ToLower (one_case_repository ?p) [''5'']
      (\<lambda>i. noon_2024_06_03 + 1)) = 0"
    using n by (simp add: GetStats_TotalOverdue overdue_count_Cons overdue_count_Nil)
  moreover have "After (noon_2024_06_03 + 1) (DueDate ?p)"
    by (simp add: After_def)
  moreover have "Status ?p \<noteq> StatusClosed"
    by (simp add: StatusPublished_def StatusClosed_def)
  ultimately show ?thesis using n by blast
qed

section \<open>Cases without a due date\<close>

lemma GetDeadlines_loop_members:
  "d \<in> set (GetDeadlines_loop clock limit i cs deadlines) \<Longrightarrow>
     d \<in> set deadlines \<or>
     (\<exists>c\<in>set cs. \<not> IsZero (DueDate c) \<and> Status c \<noteq> StatusClosed \<and>
        (\<exists>status. d = new_deadline c status))"
proof (induction cs arbitrary: i deadlines)
  case Nil
  then show ?case by simp
next
  case (Cons c cs)
  let ?next = "if \<not> IsZero (DueDate c) \<and> Status c \<noteq> StatusClosed
      then deadlines @ [new_deadline c (live_status (clock i) (DueDate c))] else deadlines"
  have step: "d \<in> set ?next \<Longrightarrow> d \<in> set deadlines \<or>
     (\<not> IsZero (DueDate c) \<and> Status c \<noteq> StatusClosed \<and> (\<exists>status. d = new_deadline c status))"
    by (auto split: if_splits)
  show ?case
  proof (cases "limit \<le> int (length ?next)")
    case True
    then have "d \<in> set ?next" using Cons.prems by (simp add: Let_def)
    then show ?thesis using step by auto
  next
    case False
    then have "d \<in> set (GetDeadlines_loop clock limit (Suc i) cs ?next)"
      using Cons.prems by (simp add: Let_def)
    then have "d \<in> set ?next \<or>
       (\<exists>c\<in>set cs. \<not> IsZero (DueDate c) \<and> Status c \<noteq> StatusClosed \<and>
          (\<exists>status. d = new_deadline c status))"
      by (rule Cons.IH)
    then show ?thesis using step by auto
  qed
qed

text \<open>
  C10. A case whose due date is the zero time is never overdue for \<open>IsOverdue\<close>, whatever
  its status and the current time. Every entry \<open>GetDeadlines\<close> returns comes from a stored
  case with a due date other than the zero time (and a status other than \<open>closed\<close>) and
  carries that case's ID and due date; so, the cases being stored under their own IDs, no
  entry belongs to a case without due date.
\<close>

theorem no_due_date_never_overdue_nor_deadline:
  "(IsZero (DueDate c) \<longrightarrow> \<not> Case_IsOverdue c now) \<and>
   (\<forall>d \<in> set (CaseRepository_GetDeadlines r order clock limit).
      \<exists>k stored. k \<in> set order \<and> cases r k = Some stored \<and> \<not> IsZero (DueDate stored) \<and>
        Status stored \<noteq> StatusClosed \<and> Deadline_CaseID d = ID stored \<and>
        Deadline_DueDate d = DueDate stored) \<and>
   (stored_under_own_ID r \<longrightarrow>
      (\<forall>k stored. cases r k = Some stored \<and> IsZero (DueDate stored) \<longrightarrow>
         (\<forall>d \<in> set (CaseRepository_GetDeadlines r order clock limit). Deadline_CaseID d \<noteq> k)))"
proof -
  have members: "\<exists>k stored. k \<in> set order \<and> cases r k = Some stored \<and> \<not> IsZero (DueDate stored) \<and>
        Status stored \<noteq> StatusClosed \<and> Deadline_CaseID d = ID stored \<and>
        Deadline_DueDate d = DueDate stored"
    if "d \<in> set (CaseRepository_GetDeadlines r order clock limit)" for d
  proof -
    have "d \<in> set [] \<or> (\<exists>c\<in>set (range_cases r order). \<not> IsZero (DueDate c) \<and>
        Status c \<noteq> StatusClosed \<and> (\<exists>status. d = new_deadline c status))"
      using that unfolding CaseRepository_GetDeadlines_def by (rule GetDeadlines_loop_members)
    then obtain stored status where s: "stored \<in> set (range_cases r order)"
        "\<not> IsZero (DueDate stored)" "Status stored \<noteq> StatusClosed" "d = new_deadline stored status"
      by auto
    from s(1) obtain k where "k \<in> set order" "cases r k = Some stored"
      unfolding set_range_cases by blast
    then show ?thesis using s by (auto simp: new_deadline_def)
  qed
  have own: "Deadline_CaseID d \<noteq> k"
    if h1: "stored_under_own_ID r" and h2: "cases r k = Some stored"
      and h3: "IsZero (DueDate stored)"
      and h4: "d \<in> set (CaseRepository_GetDeadlines r order clock limit)" for k stored d
  proof
    assume e: "Deadline_CaseID d = k"
    obtain k' stored' where m: "cases r k' = Some stored'" "\<not> IsZero (DueDate stored')"
        "Deadline_CaseID d = ID stored'"
      using members [OF h4] by blast
    then have "k' = k" using h1 e unfolding stored_under_own_ID_def by auto
    then show False using m h2 h3 by simp
  qed
  have "IsZero (DueDate c) \<longrightarrow> \<not> Case_IsOverdue c now"
    by (simp add: Case_IsOverdue_def)
  with members own show ?thesis by blast
qed


theorem no_due_date_never_overdue_nor_deadline_witness:
  "IsZero (DueDate (Case_zero\<lparr>ID := ''4'', Status := StatusSubmitted\<rparr>)) \<and>
   \<not> Case_IsOverdue (Case_zero\<lparr>ID := ''4'', Status := StatusSubmitted\<rparr>) noon_2024_06_03 \<and>
   stored_under_own_ID
     (seedDemoData_cases
        [Case_zero\<lparr>ID := ''4'', Status := StatusSubmitted\<rparr>,
         Case_zero\<lparr>ID := ''1'', Status := StatusSubmitted, DueDate := noon_2024_06_03\<rparr>]
        seeded_empty_repository) \<and>
   ''4'' \<notin> set (map Deadline_CaseID
     (CaseRepository_GetDeadlines
        (seedDemoData_cases
           [Case_zero\<lparr>ID := ''4'', Status := StatusSubmitted\<rparr>,
            Case_zero\<lparr>ID := ''1'', Status := StatusSubmitted, DueDate := noon_2024_06_03\<rparr>]
           seeded_empty_repository)
        [''4'', ''1''] (\<lambda>i. (noon_2024_06_03, noon_2024_06_03)) 5)) \<and>
   map Deadline_CaseID
     (CaseRepository_GetDeadlines
        (seedDemoData_cases
           [Case_zero\<lparr>ID := ''4'', Status := StatusSubmitted\<rparr>,
            Case_zero\<lparr>ID := ''1'', Status := StatusSubmitted, DueDate := noon_2024_06_03\<rparr>]
           seeded_empty_repository)
        [''4'', ''1''] (\<lambda>i. (noon_2024_06_03, noon_2024_06_03)) 5) = [''1'']"
proof -
  let ?z = "Case_zero\<lparr>ID := ''4'', Status := StatusSubmitted\<rparr>"
  let ?a = "Case_zero\<lparr>ID := ''1'', Status := StatusSubmitted, DueDate := noon_2024_06_03\<rparr>"
  let ?store = "seedDemoData_cases [?z, ?a] seeded_empty_repository"
  let ?clock = "\<lambda>i::nat. (noon_2024_06_03, noon_2024_06_03)"
  note t = no_due_date_never_overdue_nor_deadline [of ?z noon_2024_06_03 ?store "[''4'', ''1'']"
      ?clock 5]
  have c: "cases ?store = [''4'' \<mapsto> ?z, ''1'' \<mapsto> ?a]"
    by (simp add: seeded_empty_repository_def)
  have z: "IsZero (DueDate ?z)"
    by (simp add: IsZero_def Case_zero_def)
  have own: "stored_under_own_ID ?store"
    unfolding stored_under_own_ID_def c by (auto split: if_splits)
  have 1: "\<not> Case_IsOverdue ?z noon_2024_06_03"
    using t z by blast
  have k: "cases ?store ''4'' = Some ?z"
    unfolding c by simp
  have "\<forall>d \<in> set (CaseRepository_GetDeadlines ?store [''4'', ''1''] ?clock 5).
          Deadline_CaseID d \<noteq> ''4''"
    using t own k z by blast
  then have 2: "''4'' \<notin> set (map Deadline_CaseID
      (CaseRepository_GetDeadlines ?store [''4'', ''1''] ?clock 5))"
    by auto
  have nz: "\<not> IsZero noon_2024_06_03"
    by (simp add: IsZero_def noon_2024_06_03_def nsPerDay_def nsPerHour_def)
  have r: "range_cases ?store [''4'', ''1''] = [?z, ?a]"
    by (simp add: range_cases_def seeded_empty_repository_def)
  have 3: "map Deadline_CaseID (CaseRepository_GetDeadlines ?store [''4'', ''1''] ?clock 5) = [''1'']"
    unfolding CaseRepository_GetDeadlines_def r
    using z nz by (simp add: Let_def new_deadline_def StatusSubmitted_def StatusClosed_def)
  from z 1 own 2 3 show ?thesis by blast
qed

section \<open>Business days and due dates\<close>


lemma AddDays_AddDays: "AddDays (AddDays t a) b = AddDays t (a + b)"
  by (simp add: AddDays_def algebra_simps)

























section \<open>Concurrent callers\<close>

lemma digits_first_not_dash: "\<exists>ch rest. digits n = ch # rest \<and> ch \<noteq> CHR ''-''"
proof -
  obtain ch rest where e: "digits n = ch # rest"
    using digits_nonempty [of n] by (cases "digits n") auto
  have "CHR ''-'' \<notin> set (digits n)" by (rule digits_no_dash)
  then have "ch \<noteq> CHR ''-''" unfolding e by auto
  with e show ?thesis by blast
qed

lemma fmt_03d_inj:
  assumes "fmt_03d a = fmt_03d b"
  shows "a = b"
proof -
  have neg: "decimal_value (tl (fmt_03d n)) = nat (- n)" if "n < 0" for n
    using that by (simp add: fmt_03d_def decimal_value_zero_pad decimal_value_digits)
  have pos: "decimal_value (fmt_03d n) = nat n" if "0 \<le> n" for n
    using that by (rule fmt_03d_nonneg(2))
  have first_neg: "hd (fmt_03d n) = CHR ''-''" if "n < 0" for n
    using that by (simp add: fmt_03d_def)
  have first_pos: "hd (fmt_03d n) \<noteq> CHR ''-''" if "0 \<le> n" for n
  proof -
    have "list_all is_digit (fmt_03d n)" and "3 \<le> length (fmt_03d n)"
      using that by (rule fmt_03d_nonneg(1), rule fmt_03d_nonneg(4))
    then obtain ch rest where "fmt_03d n = ch # rest" and "is_digit ch"
      by (cases "fmt_03d n") auto
    then show ?thesis using is_digit_not_dash by auto
  qed
  show ?thesis
  proof (cases "a < 0")
    case True
    then have "b < 0" using first_neg [OF True] first_pos [of b] assms by force
    then show ?thesis using neg [OF True] neg [of b] assms by simp
  next
    case False
    then have "\<not> b < 0" using first_neg [of b] first_pos [of a] assms by force
    then show ?thesis using pos [of a] pos [of b] False assms by simp
  qed
qed

lemma fmt_d_split:
  assumes "fmt_d y @ CHR ''-'' # rest = fmt_d y' @ CHR ''-'' # rest'"
  shows "rest = rest'"
proof -
  have split: "rest = rest'" if "digits m @ CHR ''-'' # rest = digits m' @ CHR ''-'' # rest'" for m m'
    using dash_split_unique [OF digits_no_dash digits_no_dash that] by simp
  obtain ch tail where d: "digits (nat y) = ch # tail" "ch \<noteq> CHR ''-''"
    using digits_first_not_dash by blast
  obtain ch' tail' where d': "digits (nat y') = ch' # tail'" "ch' \<noteq> CHR ''-''"
    using digits_first_not_dash by blast
  show ?thesis
  proof (cases "y < 0")
    case True
    show ?thesis
    proof (cases "y' < 0")
      case True
      then show ?thesis using \<open>y < 0\<close> assms split by (simp add: fmt_d_def)
    next
      case False
      then show ?thesis using \<open>y < 0\<close> assms d' by (simp add: fmt_d_def)
    qed
  next
    case False
    show ?thesis
    proof (cases "y' < 0")
      case True
      then show ?thesis using False assms d by (simp add: fmt_d_def)
    next
      case y': False
      then show ?thesis using False assms split by (simp add: fmt_d_def)
    qed
  qed
qed

lemma Sprintf_case_number_inj:
  assumes "Sprintf_case_number caseType year n = Sprintf_case_number caseType year' n'"
  shows "n = n'"
proof -
  have "fmt_d year @ CHR ''-'' # fmt_03d n = fmt_d year' @ CHR ''-'' # fmt_03d n'"
    using assms by (simp add: Sprintf_case_number_def)
  then have "fmt_03d n = fmt_03d n'" by (rule fmt_d_split)
  then show ?thesis by (rule fmt_03d_inj)
qed

lemma count_update_same:
  "i < length xs \<Longrightarrow> P x = P (xs ! i) \<Longrightarrow> length (filter P (xs[i := x])) = length (filter P xs)"
proof (induction xs arbitrary: i)
  case Nil
  then show ?case by simp
next
  case (Cons a xs)
  then show ?case by (cases i) auto
qed

lemma count_update_new:
  "i < length xs \<Longrightarrow> P x \<Longrightarrow> \<not> P (xs ! i) \<Longrightarrow>
     length (filter P (xs[i := x])) = Suc (length (filter P xs))"
proof (induction xs arbitrary: i)
  case Nil
  then show ?case by simp
next
  case (Cons a xs)
  then show ?case by (cases i) auto
qed

lemma count_below_length:
  "i < length xs \<Longrightarrow> \<not> P (xs ! i) \<Longrightarrow> length (filter P xs) < length xs"
  by (rule length_filter_less [of "xs ! i"]) simp_all

lemma map_fst_update:
  "i < length ts \<Longrightarrow> fst (ts ! i) = caseType \<Longrightarrow> map fst (ts[i := (caseType, p)]) = map fst ts"
  by (simp add: map_update list_update_same_conv)


lemma reachable_shapeI:
  assumes "map fst (threads s) = caseTypes"
    and "\<And>i j. i < length (threads s) \<Longrightarrow> j < length (threads s) \<Longrightarrow>
           holds_lock (snd (threads s ! i)) \<Longrightarrow> holds_lock (snd (threads s ! j)) \<Longrightarrow> i = j"
    and "\<And>i. \<not> mu_locked s \<Longrightarrow> i < length (threads s) \<Longrightarrow> \<not> holds_lock (snd (threads s ! i))"
    and "counter (repo s) caseType = c + int (threads_past_increment caseType (threads s))"
    and "\<And>i. i < length (threads s) \<Longrightarrow> fst (threads s ! i) = caseType \<Longrightarrow>
           incremented (snd (threads s ! i)) \<Longrightarrow>
           c < ticket i \<and> ticket i \<le> counter (repo s) caseType"
    and "\<And>i j. i < length (threads s) \<Longrightarrow> j < length (threads s) \<Longrightarrow> i \<noteq> j \<Longrightarrow>
           fst (threads s ! i) = caseType \<Longrightarrow> fst (threads s ! j) = caseType \<Longrightarrow>
           incremented (snd (threads s ! i)) \<Longrightarrow> incremented (snd (threads s ! j)) \<Longrightarrow>
           ticket i \<noteq> ticket j"
    and "\<And>i. i < length (threads s) \<Longrightarrow> fst (threads s ! i) = caseType \<Longrightarrow>
           before_Sprintf (snd (threads s ! i)) \<Longrightarrow> ticket i = counter (repo s) caseType"
    and "\<And>i result. i < length (threads s) \<Longrightarrow> fst (threads s ! i) = caseType \<Longrightarrow>
           result_of (snd (threads s ! i)) = Some result \<Longrightarrow>
           \<exists>year. result = Sprintf_case_number caseType year (ticket i)"
  shows "reachable_shape caseType c caseTypes s ticket"
  unfolding reachable_shape_def using assms by blast

lemma reachable_shapeD:
  assumes "reachable_shape caseType c caseTypes s ticket"
  shows "map fst (threads s) = caseTypes"
    and "\<And>i j. i < length (threads s) \<Longrightarrow> j < length (threads s) \<Longrightarrow>
           holds_lock (snd (threads s ! i)) \<Longrightarrow> holds_lock (snd (threads s ! j)) \<Longrightarrow> i = j"
    and "\<And>i. \<not> mu_locked s \<Longrightarrow> i < length (threads s) \<Longrightarrow> \<not> holds_lock (snd (threads s ! i))"
    and "counter (repo s) caseType = c + int (threads_past_increment caseType (threads s))"
    and "\<And>i. i < length (threads s) \<Longrightarrow> fst (threads s ! i) = caseType \<Longrightarrow>
           incremented (snd (threads s ! i)) \<Longrightarrow>
           c < ticket i \<and> ticket i \<le> counter (repo s) caseType"
    and "\<And>i j. i < length (threads s) \<Longrightarrow> j < length (threads s) \<Longrightarrow> i \<noteq> j \<Longrightarrow>
           fst (threads s ! i) = caseType \<Longrightarrow> fst (threads s ! j) = caseType \<Longrightarrow>
           incremented (snd (threads s ! i)) \<Longrightarrow> incremented (snd (threads s ! j)) \<Longrightarrow>
           ticket i \<noteq> ticket j"
    and "\<And>i. i < length (threads s) \<Longrightarrow> fst (threads s ! i) = caseType \<Longrightarrow>
           before_Sprintf (snd (threads s ! i)) \<Longrightarrow> ticket i = counter (repo s) caseType"
    and "\<And>i result. i < length (threads s) \<Longrightarrow> fst (threads s ! i) = caseType \<Longrightarrow>
           result_of (snd (threads s ! i)) = Some result \<Longrightarrow>
           \<exists>year. result = Sprintf_case_number caseType year (ticket i)"
  using assms unfolding reachable_shape_def by blast+

text \<open>
  A statement that leaves the counters alone and does not take the thread past its
  increment keeps the shape, under the conditions on its old and new position.
\<close>

lemma shape_kept_by_statement:
  assumes shape: "reachable_shape caseType c caseTypes s ticket"
    and i: "i < length (threads s)"
    and at: "threads s ! i = (own, p)"
    and upd: "threads s' = (threads s)[i := (own, p')]"
    and repo: "counter (repo s') caseType = counter (repo s) caseType"
    and inc: "own = caseType \<Longrightarrow> incremented p' = incremented p"
    and enter: "holds_lock p' \<Longrightarrow> holds_lock p \<or> \<not> mu_locked s"
    and leave: "\<not> mu_locked s' \<Longrightarrow> \<not> holds_lock p' \<and> (holds_lock p \<or> \<not> mu_locked s)"
    and before: "own = caseType \<Longrightarrow> before_Sprintf p' \<Longrightarrow> before_Sprintf p"
    and res: "\<And>result. own = caseType \<Longrightarrow> result_of p' = Some result \<Longrightarrow>
          result_of p = Some result \<or>
          (before_Sprintf p \<and> (\<exists>year. result = Sprintf_case_number own year (counter (repo s) own)))"
  shows "reachable_shape caseType c caseTypes s' ticket"
proof (rule reachable_shapeI)
  note d = reachable_shapeD [OF shape]
  have len: "length (threads s') = length (threads s)"
    by (simp add: upd)
  have nth: "threads s' ! j = (if j = i then (own, p') else threads s ! j)"
    if "j < length (threads s)" for j
    using that by (simp add: upd nth_list_update)
  have fst_same: "fst (threads s' ! j) = fst (threads s ! j)" if "j < length (threads s)" for j
    using that at by (simp add: nth)
  have others_free: "\<not> holds_lock (snd (threads s ! j))"
    if "holds_lock p \<or> \<not> mu_locked s" and "j < length (threads s)" and "j \<noteq> i" for j
  proof
    assume h: "holds_lock (snd (threads s ! j))"
    show False
    proof (cases "mu_locked s")
      case True
      then have "holds_lock (snd (threads s ! i))" using that(1) at by simp
      then have "i = j" using d(2) [OF i that(2)] h by simp
      then show False using that(3) by simp
    next
      case False
      then show False using d(3) [OF False that(2)] h by simp
    qed
  qed
  show "map fst (threads s') = caseTypes"
    using d(1) i at by (simp add: upd map_fst_update)
  show "j = k" if "j < length (threads s')" "k < length (threads s')"
      "holds_lock (snd (threads s' ! j))" "holds_lock (snd (threads s' ! k))" for j k
  proof (cases "j = i")
    case True
    then have "holds_lock p'" using that(1,3) len by (simp add: nth)
    then have e: "holds_lock p \<or> \<not> mu_locked s" by (rule enter)
    show ?thesis
    proof (rule ccontr)
      assume "j \<noteq> k"
      then have "k \<noteq> i" using True by simp
      then have "\<not> holds_lock (snd (threads s ! k))"
        using others_free [OF e] that(2) len by simp
      then show False using that(2,4) \<open>k \<noteq> i\<close> len by (simp add: nth)
    qed
  next
    case False
    then have hj: "holds_lock (snd (threads s ! j))" using that(1,3) len by (simp add: nth)
    show ?thesis
    proof (cases "k = i")
      case True
      then have "holds_lock p'" using that(2,4) len by (simp add: nth)
      then have e: "holds_lock p \<or> \<not> mu_locked s" by (rule enter)
      then have "\<not> holds_lock (snd (threads s ! j))"
        using others_free [OF e] that(1) len False by simp
      then show ?thesis using hj by simp
    next
      case k: False
      then have "holds_lock (snd (threads s ! k))" using that(2,4) len by (simp add: nth)
      then show ?thesis using d(2) [of j k] hj that(1,2) len by simp
    qed
  qed
  show "\<not> holds_lock (snd (threads s' ! j))" if "\<not> mu_locked s'" "j < length (threads s')" for j
  proof (cases "j = i")
    case True
    then show ?thesis using leave [OF that(1)] that(2) len by (simp add: nth)
  next
    case False
    then have "\<not> holds_lock (snd (threads s ! j))"
      using others_free [of j] leave [OF that(1)] that(2) len by simp
    then show ?thesis using False that(2) len by (simp add: nth)
  qed
  have "threads_past_increment caseType (threads s') = threads_past_increment caseType (threads s)"
    unfolding threads_past_increment_def upd
    by (rule count_update_same [OF i]) (use at inc in auto)
  then show "counter (repo s') caseType = c + int (threads_past_increment caseType (threads s'))"
    using d(4) by (simp add: repo)
  have inc_same: "incremented (snd (threads s' ! j)) = incremented (snd (threads s ! j))"
    if "j < length (threads s)" "fst (threads s ! j) = caseType" for j
    using that at inc by (auto simp: nth)
  show "c < ticket j \<and> ticket j \<le> counter (repo s') caseType"
    if "j < length (threads s')" "fst (threads s' ! j) = caseType" "incremented (snd (threads s' ! j))"
    for j
    using d(5) [of j] that len by (simp add: repo fst_same inc_same)
  show "ticket j \<noteq> ticket k"
    if "j < length (threads s')" "k < length (threads s')" "j \<noteq> k"
      "fst (threads s' ! j) = caseType" "fst (threads s' ! k) = caseType"
      "incremented (snd (threads s' ! j))" "incremented (snd (threads s' ! k))" for j k
    using d(6) [of j k] that len by (simp add: fst_same inc_same)
  show "ticket j = counter (repo s') caseType"
    if "j < length (threads s')" "fst (threads s' ! j) = caseType" "before_Sprintf (snd (threads s' ! j))"
    for j
  proof (cases "j = i")
    case True
    then have own: "own = caseType" using that(1,2) len by (simp add: nth)
    have "before_Sprintf p'" using True that(1,3) len by (simp add: nth)
    then have "before_Sprintf p" using before own by simp
    then show ?thesis using d(7) [of i] i at own True by (simp add: repo)
  next
    case False
    then show ?thesis using d(7) [of j] that len by (simp add: repo nth)
  qed
  show "\<exists>year. result = Sprintf_case_number caseType year (ticket j)"
    if "j < length (threads s')" "fst (threads s' ! j) = caseType"
      "result_of (snd (threads s' ! j)) = Some result" for j result
  proof (cases "j = i")
    case True
    then have own: "own = caseType" using that(1,2) len by (simp add: nth)
    have "result_of p' = Some result" using True that(1,3) len by (simp add: nth)
    then have "result_of p = Some result \<or>
          (before_Sprintf p \<and> (\<exists>year. result = Sprintf_case_number own year (counter (repo s) own)))"
      using own by (rule res [rotated])
    then show ?thesis
    proof
      assume "result_of p = Some result"
      then show ?thesis using d(8) [of i result] i at own True by simp
    next
      assume b: "before_Sprintf p \<and>
          (\<exists>year. result = Sprintf_case_number own year (counter (repo s) own))"
      then have "ticket i = counter (repo s) caseType"
        using d(7) [of i] i at own by simp
      then show ?thesis using b own True by auto
    qed
  next
    case False
    then show ?thesis using d(8) [of j result] that len by (simp add: nth)
  qed
qed


lemma before_Sprintf_holds_lock: "before_Sprintf p \<Longrightarrow> holds_lock p"
  by (cases p) simp_all

lemma lock_is_held:
  assumes "reachable_shape caseType c caseTypes s ticket" and "i < length (threads s)"
    and "holds_lock (snd (threads s ! i))"
  shows "mu_locked s"
  using reachable_shapeD(3) [OF assms(1) _ assms(2)] assms(3) by blast

text \<open>The increment by a thread of the case type: the thread takes the new counter value.\<close>

lemma shape_kept_by_increment:
  assumes shape: "reachable_shape caseType c caseTypes s ticket"
    and fit: "increments_fit c (length (threads s))"
    and i: "i < length (threads s)"
    and at: "threads s ! i = (caseType, AtIncrement)"
    and upd: "threads s' = (threads s)[i := (caseType, AtYear)]"
    and repo: "counter (repo s') caseType = wrap_int (counter (repo s) caseType + 1)"
    and mu: "mu_locked s' = mu_locked s"
  shows "reachable_shape caseType c caseTypes s'
           (ticket(i := counter (repo s) caseType + 1))"
proof (rule reachable_shapeI)
  note d = reachable_shapeD [OF shape]
  let ?ticket = "ticket(i := counter (repo s) caseType + 1)"
  let ?past = "\<lambda>t. fst t = caseType \<and> incremented (snd t)"
  have len: "length (threads s') = length (threads s)"
    by (simp add: upd)
  have nth: "threads s' ! j = (if j = i then (caseType, AtYear) else threads s ! j)"
    if "j < length (threads s)" for j
    using that by (simp add: upd nth_list_update)
  have lock_same: "holds_lock (snd (threads s' ! j)) = holds_lock (snd (threads s ! j))"
    if "j < length (threads s)" for j
    using that at by (simp add: nth)
  have "\<not> ?past (threads s ! i)"
    by (simp add: at)
  then have "length (filter ?past (threads s)) < length (threads s)"
    by (rule count_below_length [OF i])
  then have below: "threads_past_increment caseType (threads s) < length (threads s)"
    by (simp add: threads_past_increment_def)
  have "- (2 ^ 63) \<le> counter (repo s) caseType + 1" and "counter (repo s) caseType + 1 < 2 ^ 63"
    using fit below d(4) by (simp_all add: increments_fit_def)
  then have new: "counter (repo s') caseType = counter (repo s) caseType + 1"
    by (simp add: repo wrap_int_id)
  have lower: "c \<le> counter (repo s) caseType"
    using d(4) by simp
  show "map fst (threads s') = caseTypes"
    using d(1) i at by (simp add: upd map_fst_update)
  show "j = k" if "j < length (threads s')" "k < length (threads s')"
      "holds_lock (snd (threads s' ! j))" "holds_lock (snd (threads s' ! k))" for j k
    using d(2) [of j k] that len by (simp add: lock_same)
  show "\<not> holds_lock (snd (threads s' ! j))" if "\<not> mu_locked s'" "j < length (threads s')" for j
    using d(3) [of j] that len by (simp add: lock_same mu)
  have "length (filter ?past ((threads s)[i := (caseType, AtYear)]))
      = Suc (length (filter ?past (threads s)))"
    by (rule count_update_new [OF i]) (simp_all add: at)
  then have "threads_past_increment caseType (threads s')
      = Suc (threads_past_increment caseType (threads s))"
    by (simp add: threads_past_increment_def upd)
  then show "counter (repo s') caseType = c + int (threads_past_increment caseType (threads s'))"
    using d(4) new by simp
  have old: "c < ticket j \<and> ticket j \<le> counter (repo s) caseType"
    if "j < length (threads s)" "j \<noteq> i" "fst (threads s' ! j) = caseType"
      "incremented (snd (threads s' ! j))" for j
    using d(5) [of j] that by (simp add: nth)
  show "c < ?ticket j \<and> ?ticket j \<le> counter (repo s') caseType"
    if "j < length (threads s')" "fst (threads s' ! j) = caseType" "incremented (snd (threads s' ! j))"
    for j
  proof (cases "j = i")
    case True
    then show ?thesis using lower new by simp
  next
    case False
    then show ?thesis using old [of j] that len new by simp
  qed
  show "?ticket j \<noteq> ?ticket k"
    if "j < length (threads s')" "k < length (threads s')" "j \<noteq> k"
      "fst (threads s' ! j) = caseType" "fst (threads s' ! k) = caseType"
      "incremented (snd (threads s' ! j))" "incremented (snd (threads s' ! k))" for j k
  proof (cases "j = i")
    case True
    then have "k \<noteq> i" using that(3) by simp
    then have "ticket k \<le> counter (repo s) caseType" using old [of k] that len by simp
    then show ?thesis using True \<open>k \<noteq> i\<close> by simp
  next
    case False
    then have j: "ticket j \<le> counter (repo s) caseType" using old [of j] that len by simp
    show ?thesis
    proof (cases "k = i")
      case True
      then show ?thesis using False j by simp
    next
      case k: False
      then show ?thesis using d(6) [of j k] that len False by (simp add: nth)
    qed
  qed
  show "?ticket j = counter (repo s') caseType"
    if "j < length (threads s')" "fst (threads s' ! j) = caseType" "before_Sprintf (snd (threads s' ! j))"
    for j
  proof (cases "j = i")
    case True
    then show ?thesis using new by simp
  next
    case False
    then have "before_Sprintf (snd (threads s ! j))" using that len by (simp add: nth)
    then have "holds_lock (snd (threads s ! j))" by (rule before_Sprintf_holds_lock)
    moreover have "holds_lock (snd (threads s ! i))" by (simp add: at)
    ultimately have "j = i" using d(2) [of j i] that(1) len i by simp
    then show ?thesis using False by simp
  qed
  show "\<exists>year. result = Sprintf_case_number caseType year (?ticket j)"
    if "j < length (threads s')" "fst (threads s' ! j) = caseType"
      "result_of (snd (threads s' ! j)) = Some result" for j result
  proof (cases "j = i")
    case True
    then show ?thesis using that len by (simp add: nth)
  next
    case False
    then show ?thesis using d(8) [of j result] that len by (simp add: nth)
  qed
qed

lemma counter_other_type:
  "own \<noteq> caseType \<Longrightarrow>
     counter (r\<lparr>counters := (counters r)(own \<mapsto> n)\<rparr>) caseType = counter r caseType"
  by (simp add: counter_def)

lemma counter_own_type:
  "counter (r\<lparr>counters := (counters r)(own \<mapsto> n)\<rparr>) own = n"
  by (simp add: counter_def)

lemma shape_kept_by_thread_step:
  assumes shape: "reachable_shape caseType c caseTypes s ticket"
    and fit: "increments_fit c (length caseTypes)"
  shows "\<exists>ticket'. reachable_shape caseType c caseTypes (thread_step s i year) ticket'"
proof (cases "i < length (threads s)")
  case False
  then show ?thesis using shape by (auto simp: thread_step_def)
next
  case i: True
  obtain own p where at: "threads s ! i = (own, p)"
    by (cases "threads s ! i") auto
  have n: "length (threads s) = length caseTypes"
    using reachable_shapeD(1) [OF shape] by (metis length_map)
  have held: "mu_locked s" if "holds_lock p"
    using lock_is_held [OF shape i] that at by simp
  show ?thesis
  proof (cases p)
    case AtLock
    show ?thesis
    proof (cases "mu_locked s")
      case True
      then have "thread_step s i year = s"
        using i at AtLock by (simp add: thread_step_def)
      then show ?thesis using shape by auto
    next
      case False
      let ?s = "s\<lparr>mu_locked := True, threads := (threads s)[i := (own, AtIncrement)]\<rparr>"
      have "reachable_shape caseType c caseTypes ?s ticket"
        by (rule shape_kept_by_statement [OF shape i at, where p' = AtIncrement])
           (use AtLock False in simp_all)
      moreover have "thread_step s i year = ?s"
        using i at AtLock False by (simp add: thread_step_def)
      ultimately show ?thesis by auto
    qed
  next
    case AtIncrement
    let ?s = "s\<lparr>repo := (repo s)\<lparr>counters := (counters (repo s))
                        (own \<mapsto> wrap_int (counter (repo s) own + 1))\<rparr>,
               threads := (threads s)[i := (own, AtYear)]\<rparr>"
    have step: "thread_step s i year = ?s"
      using i at AtIncrement by (simp add: thread_step_def)
    show ?thesis
    proof (cases "own = caseType")
      case True
      have "reachable_shape caseType c caseTypes ?s (ticket(i := counter (repo s) caseType + 1))"
        by (rule shape_kept_by_increment [OF shape _ i])
           (use fit n at AtIncrement True in \<open>simp_all add: counter_own_type\<close>)
      then show ?thesis using step by auto
    next
      case False
      have "reachable_shape caseType c caseTypes ?s ticket"
        by (rule shape_kept_by_statement [OF shape i at, where p' = AtYear])
           (use AtIncrement False held in \<open>simp_all add: counter_other_type\<close>)
      then show ?thesis using step by auto
    qed
  next
    case AtYear
    let ?s = "s\<lparr>threads := (threads s)[i := (own, AtSprintf year)]\<rparr>"
    have "reachable_shape caseType c caseTypes ?s ticket"
      by (rule shape_kept_by_statement [OF shape i at, where p' = "AtSprintf year"])
         (use AtYear held in simp_all)
    moreover have "thread_step s i year = ?s"
      using i at AtYear by (simp add: thread_step_def)
    ultimately show ?thesis by auto
  next
    case (AtSprintf y)
    let ?result = "Sprintf_case_number own y (counter (repo s) own)"
    let ?s = "s\<lparr>threads := (threads s)[i := (own, AtUnlock ?result)]\<rparr>"
    have "reachable_shape caseType c caseTypes ?s ticket"
      by (rule shape_kept_by_statement [OF shape i at, where p' = "AtUnlock ?result"])
         (use AtSprintf held in auto)
    moreover have "thread_step s i year = ?s"
      using i at AtSprintf by (simp add: thread_step_def)
    ultimately show ?thesis by auto
  next
    case (AtUnlock result)
    let ?s = "s\<lparr>mu_locked := False, threads := (threads s)[i := (own, Returned result)]\<rparr>"
    have "reachable_shape caseType c caseTypes ?s ticket"
      by (rule shape_kept_by_statement [OF shape i at, where p' = "Returned result"])
         (use AtUnlock in simp_all)
    moreover have "thread_step s i year = ?s"
      using i at AtUnlock by (simp add: thread_step_def)
    ultimately show ?thesis by auto
  next
    case (Returned result)
    then have "thread_step s i year = s"
      using i at by (simp add: thread_step_def)
    then show ?thesis using shape by auto
  qed
qed

lemma shape_kept_by_run:
  assumes "increments_fit c (length caseTypes)"
  shows "\<exists>ticket. reachable_shape caseType c caseTypes s ticket \<Longrightarrow>
         \<exists>ticket. reachable_shape caseType c caseTypes (run s schedule) ticket"
proof (induction schedule arbitrary: s)
  case Nil
  then show ?case by simp
next
  case (Cons step schedule)
  then obtain ticket where "reachable_shape caseType c caseTypes s ticket" by blast
  then have "\<exists>ticket'. reachable_shape caseType c caseTypes
      (thread_step s (fst step) (snd step)) ticket'"
    using assms by (rule shape_kept_by_thread_step)
  then have "\<exists>ticket. reachable_shape caseType c caseTypes
      (run (thread_step s (fst step) (snd step)) schedule) ticket"
    by (rule Cons.IH)
  then show ?case by simp
qed

lemma shape_at_start:
  "reachable_shape caseType (counter r caseType) caseTypes (calls_started r caseTypes) ticket"
proof (rule reachable_shapeI)
  have nth: "threads (calls_started r caseTypes) ! i = (caseTypes ! i, AtLock)"
    if "i < length (threads (calls_started r caseTypes))" for i
    using that by (simp add: calls_started_def)
  show "map fst (threads (calls_started r caseTypes)) = caseTypes"
    by (simp add: calls_started_def comp_def)
  have "filter (\<lambda>t. fst t = caseType \<and> incremented (snd t))
      (map (\<lambda>caseType. (caseType, AtLock)) caseTypes) = []"
    by (induction caseTypes) simp_all
  then show "counter (repo (calls_started r caseTypes)) caseType
      = counter r caseType + int (threads_past_increment caseType (threads (calls_started r caseTypes)))"
    by (simp add: calls_started_def threads_past_increment_def)
qed (simp_all add: calls_started_def)


text \<open>
  A thread that runs alone from start to return does what the method does as one step:
  it leaves the repository of \<open>CaseRepository_NextCaseNumber\<close> and returns its string.
\<close>

lemma thread_alone_is_NextCaseNumber:
  "run (calls_started r [caseType]) [(0, y\<^sub>1), (0, y\<^sub>2), (0, year), (0, y\<^sub>4), (0, y\<^sub>5)]
     = \<lparr>mu_locked = False, repo = snd (CaseRepository_NextCaseNumber r caseType year),
        threads = [(caseType, Returned (fst (CaseRepository_NextCaseNumber r caseType year)))]\<rparr>"
  by (simp add: calls_started_def thread_step_def CaseRepository_NextCaseNumber_def Let_def)

text \<open>
  C1. Any number of threads call \<open>NextCaseNumber\<close> on one repository, for any case types,
  and run interleaved in any order, a thread waiting at \<open>Lock\<close> while another holds the
  lock. Whatever the schedule and the clock readings, two different calls for the same
  case type that have returned have returned different strings. The counter of the type
  is taken to hold a Go \<^verbatim>\<open>int\<close> that one increment per call does not overflow.
\<close>

theorem NextCaseNumber_never_issued_twice:
  assumes "increments_fit (counter r caseType) (length caseTypes)"
    and "i < length caseTypes" and "j < length caseTypes" and "i \<noteq> j"
    and "threads (run (calls_started r caseTypes) schedule) ! i = (caseType, Returned a)"
    and "threads (run (calls_started r caseTypes) schedule) ! j = (caseType, Returned b)"
  shows "a \<noteq> b"
proof
  assume same: "a = b"
  let ?s = "run (calls_started r caseTypes) schedule"
  have "\<exists>ticket. reachable_shape caseType (counter r caseType) caseTypes
      (calls_started r caseTypes) ticket"
    using shape_at_start by blast
  then have "\<exists>ticket. reachable_shape caseType (counter r caseType) caseTypes ?s ticket"
    by (rule shape_kept_by_run [OF assms(1)])
  then obtain ticket where shape: "reachable_shape caseType (counter r caseType) caseTypes ?s ticket"
    by blast
  note d = reachable_shapeD [OF shape]
  have n: "length (threads ?s) = length caseTypes"
    using d(1) by (metis length_map)
  have i: "i < length (threads ?s)" and j: "j < length (threads ?s)"
    using assms(2,3) n by simp_all
  obtain y where a: "a = Sprintf_case_number caseType y (ticket i)"
    using d(8) [OF i, of a] assms(5) by auto
  obtain y' where b: "b = Sprintf_case_number caseType y' (ticket j)"
    using d(8) [OF j, of b] assms(6) by auto
  have "ticket i = ticket j"
    using same a b Sprintf_case_number_inj by blast
  moreover have "ticket i \<noteq> ticket j"
    using d(6) [OF i j assms(4)] assms(5,6) by simp
  ultimately show False by simp
qed

theorem NextCaseNumber_never_issued_twice_witness:
  "increments_fit (counter seeded_empty_repository ''AO'') (length [''AO'', ''AO'']) \<and>
   threads (run (calls_started seeded_empty_repository [''AO'', ''AO''])
      [(1, 2024), (0, 2024), (1, 2024), (1, 2024), (0, 2024), (1, 2025), (1, 2025), (0, 2025),
       (0, 2025), (0, 2025), (0, 2025), (0, 2025)]) ! 0 = (''AO'', Returned ''AO-2025-044'') \<and>
   threads (run (calls_started seeded_empty_repository [''AO'', ''AO''])
      [(1, 2024), (0, 2024), (1, 2024), (1, 2024), (0, 2024), (1, 2025), (1, 2025), (0, 2025),
       (0, 2025), (0, 2025), (0, 2025), (0, 2025)]) ! 1 = (''AO'', Returned ''AO-2024-043'') \<and>
   ''AO-2025-044'' \<noteq> ''AO-2024-043''"
proof -
  let ?s = "run (calls_started seeded_empty_repository [''AO'', ''AO''])
      [(1, 2024), (0, 2024), (1, 2024), (1, 2024), (0, 2024), (1, 2025), (1, 2025), (0, 2025),
       (0, 2025), (0, 2025), (0, 2025), (0, 2025)]"
  have c: "counter seeded_empty_repository ''AO'' = 42"
    by (simp add: counter_def seeded_empty_repository_def seeded_counters_def
        CaseTypeAdvisoryOpinion_def CaseTypeEthicsComplaint_def CaseTypeEthicsAcknowledgment_def
        CaseTypePublicRecordsRequest_def)
  have fit: "increments_fit (counter seeded_empty_repository ''AO'') (length [''AO'', ''AO''])"
    by (simp add: c increments_fit_def)
  have t: "threads ?s = [(''AO'', Returned ''AO-2025-044''), (''AO'', Returned ''AO-2024-043'')]"
    by (simp add: calls_started_def thread_step_def counter_def seeded_empty_repository_def
        seeded_counters_def CaseTypeAdvisoryOpinion_def CaseTypeEthicsComplaint_def
        CaseTypeEthicsAcknowledgment_def CaseTypePublicRecordsRequest_def wrap_int_def
        Sprintf_case_number_def fmt_d_def fmt_03d_def zero_pad_def digits.simps digit_def)
  have t0: "threads ?s ! 0 = (''AO'', Returned ''AO-2025-044'')"
    and t1: "threads ?s ! 1 = (''AO'', Returned ''AO-2024-043'')"
    unfolding t by simp_all
  have "''AO-2025-044'' \<noteq> ''AO-2024-043''"
    by (rule NextCaseNumber_never_issued_twice [OF fit _ _ _ t0 t1]) simp_all
  with fit t0 t1 show ?thesis by blast
qed

end
